theory Spec2Isabelle
  imports Complex_Main "HOL-Library.Multiset"
begin

section \<open>Numbers, errors and geometry\<close>

text \<open>
  The generator of \<^verbatim>\<open>layout_generator.py\<close> computes with Python floats. They are
  modelled as real numbers: every coordinate, length and pitch is a \<^typ>\<open>real\<close>, and
  rounding error of the binary floating-point format is outside this model.
  Exceptions of the source are values of type \<open>error\<close>.
\<close>

datatype error = IndexError | ValueError | ZeroDivisionError

type_synonym point = "real \<times> real"

text \<open>
  A vertex array of gdspy (\<^verbatim>\<open>poly[:, 0]\<close>, \<^verbatim>\<open>poly[:, 1]\<close>): its first vertex and the
  remaining ones, so that the array is never empty.
\<close>

type_synonym verts = "point \<times> point list"

type_synonym bbox = "real \<times> real \<times> real \<times> real"

text \<open>A polygon stored in a cell: the vertex array with its layer and datatype tags.\<close>

record polygon =
  pts :: verts
  p_layer :: int
  p_datatype :: int

text \<open>
  \<^verbatim>\<open>gdspy.Rectangle(point1, point2, layer, datatype)\<close> stores the four corners, starting
  at \<^verbatim>\<open>point1\<close> with \<^verbatim>\<open>point2\<close> as the third vertex.
\<close>

definition rect_verts :: "point \<Rightarrow> point \<Rightarrow> verts" where
  "rect_verts p1 p2 = (p1, [(fst p1, snd p2), p2, (fst p2, snd p1)])"

definition Rectangle :: "point \<Rightarrow> point \<Rightarrow> int \<Rightarrow> int \<Rightarrow> polygon" where
  "Rectangle p1 p2 l d = \<lparr>pts = rect_verts p1 p2, p_layer = l, p_datatype = d\<rparr>"

text \<open>A cell is its name and its polygons in insertion order; a library is its cells in
  insertion order (\<^verbatim>\<open>lib.cells\<close> is a dict).\<close>

type_synonym cell = "string \<times> polygon list"

type_synonym lib = "cell list"

section \<open>The random generator\<close>

text \<open>
  \<^verbatim>\<open>numpy.random.Generator\<close> is a library outside the repository. A generator is
  modelled by the sequence of unit-interval doubles it will produce and the number of
  doubles consumed so far. \<^verbatim>\<open>rng.random()\<close> returns the next one;
  \<^verbatim>\<open>rng.uniform(lo, hi)\<close> is \<^verbatim>\<open>lo + (hi - lo) * random()\<close>. The library's contract
  is that every double lies in \<open>[0, 1)\<close> (\<open>rng_ok\<close>).
\<close>

record rng =
  stream :: "nat \<Rightarrow> real"
  pos :: nat

definition rng_random :: "rng \<Rightarrow> real \<times> rng" where
  "rng_random g = (stream g (pos g), g\<lparr>pos := Suc (pos g)\<rparr>)"

definition rng_uniform :: "rng \<Rightarrow> real \<Rightarrow> real \<Rightarrow> real \<times> rng" where
  "rng_uniform g lo hi = (case rng_random g of (u, g') \<Rightarrow> (lo + (hi - lo) * u, g'))"

definition rng_ok :: "rng \<Rightarrow> bool" where
  "rng_ok g = (\<forall>i. 0 \<le> stream g i \<and> stream g i < 1)"

text \<open>
  \<^verbatim>\<open>numpy.random.default_rng(seed)\<close>: an integer seed selects a reproducible stream
  (\<open>seeded\<close>), a negative one is rejected with \<^verbatim>\<open>ValueError\<close>, and \<^verbatim>\<open>None\<close> takes fresh
  entropy from the operating system (\<open>entropy\<close>), which differs from run to run.
\<close>

record rng_env =
  seeded :: "int \<Rightarrow> nat \<Rightarrow> real"
  entropy :: "nat \<Rightarrow> real"

definition default_rng :: "rng_env \<Rightarrow> int option \<Rightarrow> error + rng" where
  "default_rng env seed =
     (case seed of
        None \<Rightarrow> Inr \<lparr>stream = entropy env, pos = 0\<rparr>
      | Some s \<Rightarrow> if s < 0 then Inl ValueError else Inr \<lparr>stream = seeded env s, pos = 0\<rparr>)"

definition env_ok :: "rng_env \<Rightarrow> bool" where
  "env_ok env = ((\<forall>s i. 0 \<le> seeded env s i \<and> seeded env s i < 1) \<and>
                 (\<forall>i. 0 \<le> entropy env i \<and> entropy env i < 1))"

section \<open>Quantized range sampler\<close>

text \<open>Python's \<^verbatim>\<open>round(x)\<close> on a float: to the nearest integer, a tie to the even one.\<close>

definition py_round :: "real \<Rightarrow> int" where
  "py_round x =
     (let f = \<lfloor>x\<rfloor>; d = x - of_int f in
      if d < 1 / 2 then f
      else if 1 / 2 < d then f + 1
      else if even f then f else f + 1)"

text \<open>Python's \<^verbatim>\<open>a / b\<close> on floats raises \<^verbatim>\<open>ZeroDivisionError\<close> when \<^verbatim>\<open>b\<close> is zero.\<close>

definition py_truediv :: "real \<Rightarrow> real \<Rightarrow> error + real" where
  "py_truediv a b = (if b = 0 then Inl ZeroDivisionError else Inr (a / b))"

text \<open>
  \<^verbatim>\<open>
  def _rand_quantized(rng, lo, hi, grid):
      if hi < lo:
          hi, lo = lo, hi
      if grid <= 0:
          return float(rng.uniform(lo, hi))
      val = rng.uniform(lo, hi)
      q = round(val / grid) * grid
      return min(max(q, lo), hi)
  \<close>
\<close>

definition rand_quantized :: "rng \<Rightarrow> real \<Rightarrow> real \<Rightarrow> real \<Rightarrow> error + (real \<times> rng)" where
  "rand_quantized g lo0 hi0 grid =
     (case (if hi0 < lo0 then (hi0, lo0) else (lo0, hi0)) of (lo, hi) \<Rightarrow>
        if grid \<le> 0 then Inr (rng_uniform g lo hi)
        else case rng_uniform g lo hi of (val, g') \<Rightarrow>
          (case py_truediv val grid of
             Inl e \<Rightarrow> Inl e
           | Inr d \<Rightarrow> let q = of_int (py_round d) * grid in Inr (min (max q lo) hi, g')))"

section \<open>Track generator\<close>

record MetalGenSpec =
  wire_cd :: real
  track_pitch :: real
  min_t2t :: real
  max_t2t :: real
  t2t_grid :: real
  min_length :: real
  max_length :: real
  total_x :: real
  total_y :: real
  cell_name :: string
  layer :: int
  dtype :: int
  origin :: point
  seed :: "int option"

text \<open>
  The loop of \<^verbatim>\<open>_draw_one_track_vertical\<close>, with the cursor \<^verbatim>\<open>y\<close>, the cell's polygons
  and the generator as its state. The loop need not terminate (for instance when both
  sampled lengths are zero), so the result is an option: \<open>None\<close> is a run that never
  returns. \<^verbatim>\<open>cell.add(rect)\<close> appends to the cell's polygon list.
  \<^verbatim>\<open>
      while y < yt:
          rem = yt - y
          l_hi = min(spec.max_length, rem)
          if l_hi < spec.min_length:
              break
          l = _rand_quantized(rng, spec.min_length, l_hi, 0.0)
          rect = gdspy.Rectangle((xo + x_base, yo + y), (xo + x_base + w, yo + y + l),
                                 layer=spec.layer, datatype=spec.datatype)
          cell.add(rect)
          y += l
          if y >= yt:
              break
          t_hi = min(spec.max_t2t, yt - y)
          if t_hi < spec.min_t2t:
              break
          t = _rand_quantized(rng, spec.min_t2t, t_hi, spec.t2t_grid)
          y += t
  \<close>
\<close>

partial_function (option) track_loop ::
  "MetalGenSpec \<Rightarrow> real \<Rightarrow> real \<Rightarrow> polygon list \<Rightarrow> rng \<Rightarrow> (error + polygon list \<times> rng) option"
where
  "track_loop spec x_base y ps g =
     (if y < total_y spec then
        (if min (max_length spec) (total_y spec - y) < min_length spec then Some (Inr (ps, g))
         else case rand_quantized g (min_length spec) (min (max_length spec) (total_y spec - y)) 0 of
           Inl e \<Rightarrow> Some (Inl e)
         | Inr (l, g1) \<Rightarrow>
             (let rect = Rectangle (fst (origin spec) + x_base, snd (origin spec) + y)
                           (fst (origin spec) + x_base + wire_cd spec, snd (origin spec) + y + l)
                           (layer spec) (dtype spec);
                  ps1 = ps @ [rect];
                  y1 = y + l
              in if total_y spec \<le> y1 then Some (Inr (ps1, g1))
                 else if min (max_t2t spec) (total_y spec - y1) < min_t2t spec then Some (Inr (ps1, g1))
                 else case rand_quantized g1 (min_t2t spec) (min (max_t2t spec) (total_y spec - y1))
                             (t2t_grid spec) of
                   Inl e \<Rightarrow> Some (Inl e)
                 | Inr (t, g2) \<Rightarrow> track_loop spec x_base (y1 + t) ps1 g2))
      else Some (Inr (ps, g)))"

definition draw_one_track_vertical ::
  "polygon list \<Rightarrow> real \<Rightarrow> MetalGenSpec \<Rightarrow> rng \<Rightarrow> (error + polygon list \<times> rng) option" where
  "draw_one_track_vertical ps x_base spec g = track_loop spec x_base 0 ps g"

text \<open>
  The column loop of \<^verbatim>\<open>draw_metal_cell_vertical\<close>:
  \<^verbatim>\<open>
      x = 0.0
      while x + spec.wire_cd <= spec.total_x:
          _draw_one_track_vertical(cell, x, spec, rng)
          x += spec.track_pitch
  \<close>
\<close>

partial_function (option) column_loop ::
  "MetalGenSpec \<Rightarrow> real \<Rightarrow> polygon list \<Rightarrow> rng \<Rightarrow> (error + polygon list \<times> rng) option"
where
  "column_loop spec x ps g =
     (if x + wire_cd spec \<le> total_x spec then
        Option.bind (draw_one_track_vertical ps x spec g)
          (\<lambda>r. case r of
                  Inl e \<Rightarrow> Some (Inl e)
                | Inr (ps1, g1) \<Rightarrow> column_loop spec (x + track_pitch spec) ps1 g1)
      else Some (Inr (ps, g)))"

text \<open>
  \<^verbatim>\<open>draw_metal_cell_vertical\<close> creates a library with one cell named
  \<^verbatim>\<open>spec.cell_name\<close>, seeds the generator and fills the cell column by column.
\<close>

definition draw_metal_cell_vertical :: "rng_env \<Rightarrow> MetalGenSpec \<Rightarrow> (error + lib) option" where
  "draw_metal_cell_vertical env spec =
     (case default_rng env (seed spec) of
        Inl e \<Rightarrow> Some (Inl e)
      | Inr g \<Rightarrow>
          Option.bind (column_loop spec 0 [] g)
            (\<lambda>r. case r of
                    Inl e \<Rightarrow> Some (Inl e)
                  | Inr (ps, g') \<Rightarrow> Some (Inr [(cell_name spec, ps)])))"

section \<open>Strap generator\<close>

text \<open>
  The loop of \<^verbatim>\<open>draw_metal1\<close>; it runs forever when \<^verbatim>\<open>pitch\<close> is not positive and the
  first strap fits.
  \<^verbatim>\<open>
      y = 0.0
      while y + width <= total_y:
          rect = gdspy.Rectangle((0.0, y), (length_x, y + width), layer=layer, datatype=datatype)
          cell.add(rect)
          y += pitch
  \<close>
\<close>

partial_function (option) strap_loop ::
  "real \<Rightarrow> real \<Rightarrow> real \<Rightarrow> real \<Rightarrow> int \<Rightarrow> int \<Rightarrow> real \<Rightarrow> polygon list \<Rightarrow> polygon list option"
where
  "strap_loop length_x width pitch ty lyr dt y ps =
     (if y + width \<le> ty then
        strap_loop length_x width pitch ty lyr dt (y + pitch)
          (ps @ [Rectangle (0, y) (length_x, y + width) lyr dt])
      else Some ps)"

text \<open>\<^verbatim>\<open>cell = list(lib.cells.values())[0]\<close> raises \<^verbatim>\<open>IndexError\<close> on a library with no cell.\<close>

definition draw_metal1 ::
  "lib \<Rightarrow> real \<Rightarrow> real \<Rightarrow> real \<Rightarrow> real \<Rightarrow> int \<Rightarrow> int \<Rightarrow> (error + lib) option" where
  "draw_metal1 lb length_x width pitch ty lyr dt =
     (case lb of
        [] \<Rightarrow> Some (Inl IndexError)
      | (name, ps) # rest \<Rightarrow>
          Option.bind (strap_loop length_x width pitch ty lyr dt 0 ps)
            (\<lambda>ps'. Some (Inr ((name, ps') # rest))))"

section \<open>Via candidate engine\<close>

record ViaGenSpec =
  via_x :: real
  via_y :: real
  density :: real
  enclosure_x :: real
  enclosure_y :: real
  via_pitch_x :: real
  via_pitch_y :: real
  via_layer :: int
  via_datatype :: int
  via_seed :: int

text \<open>\<^verbatim>\<open>_get_layer_polys(cell, layer, datatype)\<close>: the vertex arrays of the polygons with
  that tag, in the cell's order.\<close>

definition get_layer_polys :: "polygon list \<Rightarrow> int \<Rightarrow> int \<Rightarrow> verts list" where
  "get_layer_polys ps lyr dt = map pts (filter (\<lambda>p. p_layer p = lyr \<and> p_datatype p = dt) ps)"

text \<open>\<^verbatim>\<open>_bbox(poly)\<close>: minimum and maximum of the two coordinate columns.\<close>

fun bbox_of :: "verts \<Rightarrow> bbox" where
  "bbox_of (p, ps) =
     (fold min (map fst ps) (fst p), fold min (map snd ps) (snd p),
      fold max (map fst ps) (fst p), fold max (map snd ps) (snd p))"

text \<open>\<^verbatim>\<open>_rect_from_bbox(b)\<close>: \<^verbatim>\<open>None\<close> for an empty or inverted box.\<close>

fun rect_from_bbox :: "bbox \<Rightarrow> verts option" where
  "rect_from_bbox (x0, y0, x1, y1) =
     (if x1 \<le> x0 \<or> y1 \<le> y0 then None else Some (rect_verts (x0, y0) (x1, y1)))"

text \<open>
  \<^verbatim>\<open>
  def _unique_positions(vals, tol):
      if not vals:
          return []
      vals = sorted(vals)
      uniq = [vals[0]]
      for v in vals[1:]:
          if abs(v - uniq[-1]) > tol:
              uniq.append(v)
      return uniq
  \<close>
\<close>

fun unique_loop :: "real \<Rightarrow> real list \<Rightarrow> real list \<Rightarrow> real list" where
  "unique_loop tol uniq [] = uniq"
| "unique_loop tol uniq (v # vs) =
     (if tol < \<bar>v - last uniq\<bar> then unique_loop tol (uniq @ [v]) vs
      else unique_loop tol uniq vs)"

definition unique_positions :: "real list \<Rightarrow> real \<Rightarrow> real list" where
  "unique_positions vals tol =
     (case sort vals of [] \<Rightarrow> [] | v # vs \<Rightarrow> unique_loop tol [v] vs)"

text \<open>
  \<^verbatim>\<open>
  def _assist_polys_horizontal(polys, ex):
      out = []
      for p in polys:
          x0, y0, x1, y1 = _bbox(p)
          r = _rect_from_bbox((x0 + ex, y0, x1 - ex, y1))
          if r:
              out.append(r)
      return out
  \<close>
  and \<^verbatim>\<open>_assist_polys_vertical\<close> with \<^verbatim>\<open>(x0, y0 + ey, x1, y1 - ey)\<close>.
\<close>

fun assist_polys_horizontal :: "verts list \<Rightarrow> real \<Rightarrow> verts list" where
  "assist_polys_horizontal [] ex = []"
| "assist_polys_horizontal (p # polys) ex =
     (case bbox_of p of (x0, y0, x1, y1) \<Rightarrow>
        (case rect_from_bbox (x0 + ex, y0, x1 - ex, y1) of
           None \<Rightarrow> assist_polys_horizontal polys ex
         | Some r \<Rightarrow> r # assist_polys_horizontal polys ex))"

fun assist_polys_vertical :: "verts list \<Rightarrow> real \<Rightarrow> verts list" where
  "assist_polys_vertical [] ey = []"
| "assist_polys_vertical (p # polys) ey =
     (case bbox_of p of (x0, y0, x1, y1) \<Rightarrow>
        (case rect_from_bbox (x0, y0 + ey, x1, y1 - ey) of
           None \<Rightarrow> assist_polys_vertical polys ey
         | Some r \<Rightarrow> r # assist_polys_vertical polys ey))"

text \<open>
  \<^verbatim>\<open>gdspy.boolean(assist_m1, assist_m2, 'and', ...)\<close> is the geometry kernel, a library
  outside the repository: it is a parameter \<open>kern\<close> of the model, returning \<open>None\<close>
  for an empty intersection and the vertex arrays of the result otherwise.
\<close>

type_synonym kernel = "verts list \<Rightarrow> verts list \<Rightarrow> verts list option"

text \<open>
  \<^verbatim>\<open>
  def _calc_candidates(cell, m1_layer, m2_layer, ex_nm, ey_nm):
      polys_m1 = _get_layer_polys(cell, m1_layer)
      polys_m2 = _get_layer_polys(cell, m2_layer)
      assist_m1 = _assist_polys_horizontal(polys_m1, ex_nm)
      assist_m2 = _assist_polys_vertical(polys_m2, ey_nm)
      if not assist_m1 or not assist_m2:
          return []
      inter = gdspy.boolean(assist_m1, assist_m2, 'and', precision=1e-12, max_points=4094)
      if inter is None:
          return []
      ...
      bboxes = [_bbox(p) for p in polys]
      return bboxes
  \<close>
\<close>

definition calc_candidates ::
  "kernel \<Rightarrow> polygon list \<Rightarrow> int \<Rightarrow> int \<Rightarrow> real \<Rightarrow> real \<Rightarrow> bbox list" where
  "calc_candidates kern ps m1_layer m2_layer ex_nm ey_nm =
     (let polys_m1 = get_layer_polys ps m1_layer 0;
          polys_m2 = get_layer_polys ps m2_layer 0;
          assist_m1 = assist_polys_horizontal polys_m1 ex_nm;
          assist_m2 = assist_polys_vertical polys_m2 ey_nm
      in if assist_m1 = [] \<or> assist_m2 = [] then []
         else case kern assist_m1 assist_m2 of
                None \<Rightarrow> []
              | Some polys \<Rightarrow> map bbox_of polys)"

section \<open>Via sampler and pitch cleaner\<close>

text \<open>
  \<^verbatim>\<open>
  def _sample_centers_from_bboxes(bboxes, vx, vy, rng, density):
      centers = []
      for x0, y0, x1, y1 in bboxes:
          if (x1 - x0) >= vx and (y1 - y0) >= vy:
              if rng.random() < density:
                  centers.append(((x0 + x1) * 0.5, (y0 + y1) * 0.5))
      return centers
  \<close>
\<close>

fun sample_centers_from_bboxes ::
  "bbox list \<Rightarrow> real \<Rightarrow> real \<Rightarrow> rng \<Rightarrow> real \<Rightarrow> point list \<times> rng" where
  "sample_centers_from_bboxes [] vx vy g d = ([], g)"
| "sample_centers_from_bboxes ((x0, y0, x1, y1) # bs) vx vy g d =
     (if vx \<le> x1 - x0 \<and> vy \<le> y1 - y0 then
        (case rng_random g of (u, g') \<Rightarrow>
           if u < d then
             (case sample_centers_from_bboxes bs vx vy g' d of
                (cs, g'') \<Rightarrow> (((x0 + x1) * (1 / 2), (y0 + y1) * (1 / 2)) # cs, g''))
           else sample_centers_from_bboxes bs vx vy g' d)
      else sample_centers_from_bboxes bs vx vy g d)"

text \<open>Python's \<^verbatim>\<open>min(iterable, key=f)\<close> returns the first element with the least key.\<close>

fun min_key_loop :: "('a \<Rightarrow> real) \<Rightarrow> 'a \<Rightarrow> 'a list \<Rightarrow> 'a" where
  "min_key_loop f best [] = best"
| "min_key_loop f best (x # xs) =
     (if f x < f best then min_key_loop f x xs else min_key_loop f best xs)"

text \<open>
  \<^verbatim>\<open>
      def nearest_idx(v, arr):
          if not arr:
              return -1
          idx = min(range(len(arr)), key=lambda i: abs(arr[i] - v))
          return idx
  \<close>
\<close>

definition nearest_idx :: "real \<Rightarrow> real list \<Rightarrow> int" where
  "nearest_idx v arr =
     (if arr = [] then - 1
      else int (min_key_loop (\<lambda>i. \<bar>arr ! i - v\<bar>) 0 [1..<length arr]))"

text \<open>
  \<^verbatim>\<open>col_map.setdefault(col, []).append((cx, cy))\<close> on a dict that keeps its keys in
  insertion order: an association list, a new key added at the end.
\<close>

fun setdefault_append :: "(int \<times> point list) list \<Rightarrow> int \<Rightarrow> point \<Rightarrow> (int \<times> point list) list" where
  "setdefault_append [] k v = [(k, [v])]"
| "setdefault_append ((k', vs) # m) k v =
     (if k' = k then (k', vs @ [v]) # m else (k', vs) # setdefault_append m k v)"

definition group_points :: "(point \<Rightarrow> int) \<Rightarrow> point list \<Rightarrow> (int \<times> point list) list" where
  "group_points track cs = foldl (\<lambda>m c. setdefault_append m (track c) c) [] cs"

text \<open>
  The greedy sweep over one sorted group:
  \<^verbatim>\<open>
          last = None
          for pt in pts:
              if last is None or (pt[1] - last[1]) >= vpy:
                  kept.append(pt)
                  last = pt
  \<close>
  with the coordinate \<open>coord\<close> (\<^verbatim>\<open>pt[1]\<close> for columns, \<^verbatim>\<open>pt[0]\<close> for rows).
\<close>

fun pitch_sweep :: "(point \<Rightarrow> real) \<Rightarrow> real \<Rightarrow> point option \<Rightarrow> point list \<Rightarrow> point list" where
  "pitch_sweep coord vp lst [] = []"
| "pitch_sweep coord vp lst (pt # rest) =
     (case lst of
        None \<Rightarrow> pt # pitch_sweep coord vp (Some pt) rest
      | Some l \<Rightarrow>
          if vp \<le> coord pt - coord l then pt # pitch_sweep coord vp (Some pt) rest
          else pitch_sweep coord vp lst rest)"

text \<open>One cleaning pass: group by track, sort every group (\<^verbatim>\<open>pts.sort(key=...)\<close> is
  stable, as \<open>sort_key\<close> is), sweep it, and append the survivors group after group.\<close>

definition clean_pass ::
  "(point \<Rightarrow> int) \<Rightarrow> (point \<Rightarrow> real) \<Rightarrow> real \<Rightarrow> point list \<Rightarrow> point list" where
  "clean_pass track coord vp cs =
     concat (map (\<lambda>(k, grp). pitch_sweep coord vp None (sort_key coord grp)) (group_points track cs))"

definition x_tracks_of :: "verts list \<Rightarrow> real list" where
  "x_tracks_of polys_m2 =
     unique_positions
       (map (\<lambda>p. case bbox_of p of (x0, y0, x1, y1) \<Rightarrow> (x0 + x1) * (1 / 2)) polys_m2) (1 / 1000)"

definition y_tracks_of :: "verts list \<Rightarrow> real list" where
  "y_tracks_of polys_m1 =
     unique_positions
       (map (\<lambda>p. case bbox_of p of (x0, y0, x1, y1) \<Rightarrow> (y0 + y1) * (1 / 2)) polys_m1) (1 / 1000)"

text \<open>\<^verbatim>\<open>nearest_idx(cx, x_tracks)\<close> and \<^verbatim>\<open>nearest_idx(cy, y_tracks)\<close> of a center.\<close>

definition col_of :: "real list \<Rightarrow> point \<Rightarrow> int" where
  "col_of x_tracks c = nearest_idx (fst c) x_tracks"

definition row_of :: "real list \<Rightarrow> point \<Rightarrow> int" where
  "row_of y_tracks c = nearest_idx (snd c) y_tracks"

text \<open>
  \<^verbatim>\<open>_pitch_clean\<close>: column cleaning on \<^verbatim>\<open>pt[1]\<close> with \<^verbatim>\<open>vpy\<close>, then row cleaning of
  the survivors on \<^verbatim>\<open>pt[0]\<close> with \<^verbatim>\<open>vpx\<close>. The two passes of the source are the same
  code on the other coordinate, here the two uses of \<open>clean_pass\<close>.
  \<^verbatim>\<open>
  def _pitch_clean(centers, vpx, vpy, polys_m1, polys_m2):
      if not centers:
          return []
      x_tracks = _unique_positions([(_bbox(p)[0] + _bbox(p)[2]) * 0.5 for p in polys_m2], tol=1e-3)
      y_tracks = _unique_positions([(_bbox(p)[1] + _bbox(p)[3]) * 0.5 for p in polys_m1], tol=1e-3)
      col_map = {}
      for cx, cy in centers:
          col = nearest_idx(cx, x_tracks)
          col_map.setdefault(col, []).append((cx, cy))
      kept = []
      for pts in col_map.values():
          pts.sort(key=lambda t: t[1])
          last = None
          for pt in pts:
              if last is None or (pt[1] - last[1]) >= vpy:
                  kept.append(pt)
                  last = pt
      row_map = {}
      for cx, cy in kept:
          row = nearest_idx(cy, y_tracks)
          row_map.setdefault(row, []).append((cx, cy))
      final = []
      for pts in row_map.values():
          pts.sort(key=lambda t: t[0])
          last = None
          for pt in pts:
              if last is None or (pt[0] - last[0]) >= vpx:
                  final.append(pt)
                  last = pt
      return final
  \<close>
\<close>

definition column_clean :: "point list \<Rightarrow> real \<Rightarrow> verts list \<Rightarrow> point list" where
  "column_clean centers vpy polys_m2 = clean_pass (col_of (x_tracks_of polys_m2)) snd vpy centers"

definition pitch_clean ::
  "point list \<Rightarrow> real \<Rightarrow> real \<Rightarrow> verts list \<Rightarrow> verts list \<Rightarrow> point list" where
  "pitch_clean centers vpx vpy polys_m1 polys_m2 =
     (if centers = [] then []
      else let kept = column_clean centers vpy polys_m2
           in clean_pass (row_of (y_tracks_of polys_m1)) fst vpx kept)"

section \<open>Via generation and the pipeline\<close>

text \<open>The rectangle \<^verbatim>\<open>gdspy.Rectangle((cx - hx, cy - hy), (cx + hx, cy + hy), ...)\<close> of a
  center, with \<^verbatim>\<open>hx, hy = 0.5 * spec.via_x, 0.5 * spec.via_y\<close>.\<close>

definition via_rect :: "ViaGenSpec \<Rightarrow> point \<Rightarrow> polygon" where
  "via_rect spec c =
     Rectangle (fst c - (1 / 2) * via_x spec, snd c - (1 / 2) * via_y spec)
               (fst c + (1 / 2) * via_x spec, snd c + (1 / 2) * via_y spec)
               (via_layer spec) (via_datatype spec)"

text \<open>The centers that \<^verbatim>\<open>generate_vias_from_metals\<close> samples from the candidates of a
  cell, before pitch cleaning.\<close>

definition sampled_centers ::
  "kernel \<Rightarrow> polygon list \<Rightarrow> ViaGenSpec \<Rightarrow> int \<Rightarrow> int \<Rightarrow> rng \<Rightarrow> point list" where
  "sampled_centers kern ps spec m1_layer m2_layer g =
     fst (sample_centers_from_bboxes
            (calc_candidates kern ps m1_layer m2_layer (enclosure_x spec) (enclosure_y spec))
            (via_x spec) (via_y spec) g (density spec))"

text \<open>
  \<^verbatim>\<open>generate_vias_from_metals\<close> returns the list of vias and leaves them appended to
  the first cell of the library.
  \<^verbatim>\<open>
      cell = list(lib.cells.values())[0]
      rng = np.random.default_rng(spec.seed)
      bboxes = _calc_candidates(cell, m1_layer, m2_layer, ex_nm=spec.enclosure_x, ey_nm=spec.enclosure_y)
      centers = _sample_centers_from_bboxes(bboxes, vx=spec.via_x, vy=spec.via_y, rng=rng,
                                            density=spec.density)
      polys_m1 = _get_layer_polys(cell, m1_layer)
      polys_m2 = _get_layer_polys(cell, m2_layer)
      centers = _pitch_clean(centers, vpx=spec.via_pitch_x, vpy=spec.via_pitch_y,
                             polys_m1=polys_m1, polys_m2=polys_m2)
      vias = []
      hx, hy = 0.5 * spec.via_x, 0.5 * spec.via_y
      for cx, cy in centers:
          rect = gdspy.Rectangle((cx - hx, cy - hy), (cx + hx, cy + hy),
                                 layer=spec.via_layer, datatype=spec.via_datatype)
          cell.add(rect)
          vias.append(rect)
      return vias
  \<close>
\<close>

definition generate_vias_from_metals ::
  "rng_env \<Rightarrow> kernel \<Rightarrow> lib \<Rightarrow> ViaGenSpec \<Rightarrow> int \<Rightarrow> int \<Rightarrow> error + (polygon list \<times> lib)" where
  "generate_vias_from_metals env kern lb spec m1_layer m2_layer =
     (case lb of
        [] \<Rightarrow> Inl IndexError
      | (name, ps) # rest \<Rightarrow>
          (case default_rng env (Some (via_seed spec)) of
             Inl e \<Rightarrow> Inl e
           | Inr g \<Rightarrow>
               (let centers = sampled_centers kern ps spec m1_layer m2_layer g;
                    polys_m1 = get_layer_polys ps m1_layer 0;
                    polys_m2 = get_layer_polys ps m2_layer 0;
                    cleaned = pitch_clean centers (via_pitch_x spec) (via_pitch_y spec)
                                polys_m1 polys_m2;
                    vias = map (via_rect spec) cleaned
                in Inr (vias, (name, ps @ vias) # rest))))"

text \<open>
  The pipeline of the driver: tracks, then straps, then vias, on one library.
  \<^verbatim>\<open>
      lib = draw_metal_cell_vertical(spec)
      lib = draw_metal1(lib, length_x, width, pitch, total_y, layer)
      generate_vias_from_metals(lib, via_spec, m1_layer, m2_layer)
  \<close>
\<close>

definition pipeline ::
  "rng_env \<Rightarrow> kernel \<Rightarrow> MetalGenSpec \<Rightarrow> real \<Rightarrow> real \<Rightarrow> real \<Rightarrow> real \<Rightarrow> int \<Rightarrow> int \<Rightarrow>
   ViaGenSpec \<Rightarrow> int \<Rightarrow> int \<Rightarrow> (error + (polygon list \<times> lib)) option" where
  "pipeline env kern spec length_x width pitch ty lyr dt vspec m1_layer m2_layer =
     Option.bind (draw_metal_cell_vertical env spec)
       (\<lambda>r. case r of
               Inl e \<Rightarrow> Some (Inl e)
             | Inr lb \<Rightarrow>
                 Option.bind (draw_metal1 lb length_x width pitch ty lyr dt)
                   (\<lambda>r2. case r2 of
                            Inl e \<Rightarrow> Some (Inl e)
                          | Inr lb2 \<Rightarrow>
                              Some (generate_vias_from_metals env kern lb2 vspec
                                      m1_layer m2_layer)))"

section \<open>Predicates of the specification\<close>

text \<open>The data-model invariant of a MetalGenSpec: lengths and pitches are positive and
  every maximum is at least its minimum.\<close>

definition valid_metal :: "MetalGenSpec \<Rightarrow> bool" where
  "valid_metal spec =
     (0 < wire_cd spec \<and> 0 < track_pitch spec \<and> 0 < min_t2t spec \<and> 0 < min_length spec \<and>
      0 < total_x spec \<and> 0 < total_y spec \<and>
      min_t2t spec \<le> max_t2t spec \<and> min_length spec \<le> max_length spec)"

text \<open>The corners \<^verbatim>\<open>point1\<close> and \<^verbatim>\<open>point2\<close> a rectangle was built from.\<close>

definition rect_p1 :: "polygon \<Rightarrow> point" where
  "rect_p1 p = fst (pts p)"

definition rect_p2 :: "polygon \<Rightarrow> point" where
  "rect_p2 p = (case snd (pts p) of _ # q # _ \<Rightarrow> q | _ \<Rightarrow> fst (pts p))"

text \<open>A rectangle with positive width and height that lies in the box from \<open>lo\<close> to
  \<open>hi\<close>.\<close>

definition proper_rect_in :: "point \<Rightarrow> point \<Rightarrow> polygon \<Rightarrow> bool" where
  "proper_rect_in lo hi p =
     (pts p = rect_verts (rect_p1 p) (rect_p2 p) \<and>
      fst lo \<le> fst (rect_p1 p) \<and> snd lo \<le> snd (rect_p1 p) \<and>
      fst (rect_p1 p) < fst (rect_p2 p) \<and> snd (rect_p1 p) < snd (rect_p2 p) \<and>
      fst (rect_p2 p) \<le> fst hi \<and> snd (rect_p2 p) \<le> snd hi)"

text \<open>The vertical gap from the end of segment \<open>r1\<close> to the start of segment \<open>r2\<close>
  is a legal tip-to-tip gap.\<close>

definition gap_ok :: "MetalGenSpec \<Rightarrow> polygon \<Rightarrow> polygon \<Rightarrow> bool" where
  "gap_ok spec r1 r2 =
     (min_t2t spec \<le> snd (rect_p1 r2) - snd (rect_p2 r1) \<and>
      snd (rect_p1 r2) - snd (rect_p2 r1) \<le> max_t2t spec)"

text \<open>A segment of the column at \<open>x_base\<close>, starting at or above the cursor \<open>y\<close>: the
  rectangle the loop emits, of a legal length and inside the vertical extent.\<close>

definition seg_ok :: "MetalGenSpec \<Rightarrow> real \<Rightarrow> real \<Rightarrow> polygon \<Rightarrow> bool" where
  "seg_ok spec x_base y r =
     (\<exists>a l. r = Rectangle (fst (origin spec) + x_base, snd (origin spec) + a)
                 (fst (origin spec) + x_base + wire_cd spec, snd (origin spec) + a + l)
                 (layer spec) (dtype spec) \<and>
            y \<le> a \<and> min_length spec \<le> l \<and> l \<le> max_length spec \<and> a + l \<le> total_y spec)"

text \<open>A segment of some column at or right of \<open>x\<close> that fits the horizontal extent.\<close>

definition track_ok :: "MetalGenSpec \<Rightarrow> real \<Rightarrow> polygon \<Rightarrow> bool" where
  "track_ok spec x r =
     (\<exists>xb. x \<le> xb \<and> xb + wire_cd spec \<le> total_x spec \<and> seg_ok spec xb 0 r)"

text \<open>A seed that \<^verbatim>\<open>default_rng\<close> accepts.\<close>

definition seed_ok :: "MetalGenSpec \<Rightarrow> bool" where
  "seed_ok spec = (case seed spec of None \<Rightarrow> True | Some s \<Rightarrow> 0 \<le> s)"

text \<open>The groups of an association list partition the points that were added.\<close>

definition grouped :: "(point \<Rightarrow> int) \<Rightarrow> (int \<times> point list) list \<Rightarrow> bool" where
  "grouped track m = (distinct (map fst m) \<and> (\<forall>(k, vs) \<in> set m. \<forall>v \<in> set vs. track v = k))"

text \<open>Two coordinates in ascending order that are at least \<open>vp\<close> apart.\<close>

definition apart :: "real \<Rightarrow> real \<Rightarrow> real \<Rightarrow> bool" where
  "apart vp a b = (a \<le> b \<and> vp \<le> b - a)"

text \<open>A polygon whose horizontal (vertical) shrink by the enclosure on each side is empty
  or inverted: \<^verbatim>\<open>x1 - ex <= x0 + ex\<close> (\<^verbatim>\<open>y1 - ey <= y0 + ey\<close>) on its bounding box.\<close>

definition collapses_h :: "verts \<Rightarrow> real \<Rightarrow> bool" where
  "collapses_h p ex = (case bbox_of p of (x0, y0, x1, y1) \<Rightarrow> x1 - ex \<le> x0 + ex)"

definition collapses_v :: "verts \<Rightarrow> real \<Rightarrow> bool" where
  "collapses_v p ey = (case bbox_of p of (x0, y0, x1, y1) \<Rightarrow> y1 - ey \<le> y0 + ey)"

text \<open>The size filter and the center of \<^verbatim>\<open>_sample_centers_from_bboxes\<close>, on one box.\<close>

definition size_ok :: "real \<Rightarrow> real \<Rightarrow> bbox \<Rightarrow> bool" where
  "size_ok vx vy b = (case b of (x0, y0, x1, y1) \<Rightarrow> vx \<le> x1 - x0 \<and> vy \<le> y1 - y0)"

definition center_of :: "bbox \<Rightarrow> point" where
  "center_of b = (case b of (x0, y0, x1, y1) \<Rightarrow> ((x0 + x1) * (1 / 2), (y0 + y1) * (1 / 2)))"

text \<open>The generator that \<^verbatim>\<open>generate_vias_from_metals\<close> seeds from an accepted seed.\<close>

definition via_rng :: "rng_env \<Rightarrow> ViaGenSpec \<Rightarrow> rng" where
  "via_rng env spec = \<lparr>stream = seeded env (via_seed spec), pos = 0\<rparr>"

text \<open>The bounding box of a vertex array lies in the box from \<open>lo\<close> to \<open>hi\<close>.\<close>

definition verts_in :: "point \<Rightarrow> point \<Rightarrow> verts \<Rightarrow> bool" where
  "verts_in lo hi v =
     (case bbox_of v of (x0, y0, x1, y1) \<Rightarrow>
        fst lo \<le> x0 \<and> snd lo \<le> y0 \<and> x1 \<le> fst hi \<and> y1 \<le> snd hi)"

text \<open>
  The contract of the geometry kernel that containment needs: an intersection lies in
  every box that holds all polygons of one operand.
\<close>

definition kernel_ok :: "kernel \<Rightarrow> bool" where
  "kernel_ok kern =
     (\<forall>as bs ps lo hi.
        kern as bs = Some ps \<and> (list_all (verts_in lo hi) as \<or> list_all (verts_in lo hi) bs)
        \<longrightarrow> list_all (verts_in lo hi) ps)"

text \<open>The extent of the tracks of a spec: from the origin to the origin plus
  \<open>(total_x, total_y)\<close>.\<close>

definition extent_hi :: "MetalGenSpec \<Rightarrow> point" where
  "extent_hi spec = (fst (origin spec) + total_x spec, snd (origin spec) + total_y spec)"

section \<open>Concrete inputs\<close>

text \<open>A generator whose every double is \<open>1/2\<close>.\<close>

definition g_half :: rng where
  "g_half = \<lparr>stream = (\<lambda>_. 1 / 2), pos = 0\<rparr>"

text \<open>A small valid spec: two columns of two segments each.\<close>

definition spec_small :: MetalGenSpec where
  "spec_small = \<lparr>wire_cd = 10, track_pitch = 20, min_t2t = 10, max_t2t = 20, t2t_grid = 5,
     min_length = 20, max_length = 40, total_x = 30, total_y = 100,
     cell_name = ''metal_cell'', layer = 111, dtype = 0, origin = (0, 0), seed = Some 0\<rparr>"

text \<open>A library whose seeded streams are constantly \<open>1/2\<close>.\<close>

definition env_half :: rng_env where
  "env_half = \<lparr>seeded = (\<lambda>_ _. 1 / 2), entropy = (\<lambda>_. 1 / 4)\<rparr>"

text \<open>A second run of the same library: the seeded streams agree, the entropy differs.\<close>

definition env_other :: rng_env where
  "env_other = \<lparr>seeded = (\<lambda>_ _. 1 / 2), entropy = (\<lambda>_. 3 / 4)\<rparr>"

text \<open>The intersection of the bounding boxes of two polygons, when it has an interior.\<close>

definition inter_rect :: "verts \<Rightarrow> verts \<Rightarrow> verts list" where
  "inter_rect a b =
     (case bbox_of a of (ax0, ay0, ax1, ay1) \<Rightarrow>
        case bbox_of b of (bx0, by0, bx1, by1) \<Rightarrow>
          if max ax0 bx0 < min ax1 bx1 \<and> max ay0 by0 < min ay1 by1
          then [rect_verts (max ax0 bx0, max ay0 by0) (min ax1 bx1, min ay1 by1)]
          else [])"

text \<open>A geometry kernel for axis-aligned rectangles, used in the concrete runs: the
  pairwise intersections, first operand outermost.\<close>

definition rect_kernel :: kernel where
  "rect_kernel as bs =
     (case concat (map (\<lambda>a. concat (map (inter_rect a) bs)) as) of
        [] \<Rightarrow> None
      | p # ps \<Rightarrow> Some (p # ps))"

text \<open>A small via spec: every candidate is sampled (\<open>density = 1\<close>).\<close>

definition via_small :: ViaGenSpec where
  "via_small = \<lparr>via_x = 4, via_y = 4, density = 1, enclosure_x = 1, enclosure_y = 1,
     via_pitch_x = 5, via_pitch_y = 5, via_layer = 112, via_datatype = 0, via_seed = 0\<rparr>"

text \<open>A strap that a horizontal enclosure of 15 collapses, and a track beside it.\<close>

definition strap_30 :: polygon where
  "strap_30 = Rectangle (0, 0) (30, 10) 110 0"

definition track_10 :: polygon where
  "track_10 = Rectangle (0, 0) (10, 30) 111 0"

text \<open>The tracks of \<open>spec_small\<close> followed by three straps on layer 110.\<close>

definition cell_small :: "polygon list" where
  "cell_small =
     [Rectangle (0, 0) (10, 30) 111 0, Rectangle (0, 45) (10, 75) 111 0,
      Rectangle (20, 0) (30, 30) 111 0, Rectangle (20, 45) (30, 75) 111 0,
      Rectangle (0, 0) (30, 10) 110 0, Rectangle (0, 40) (30, 50) 110 0,
      Rectangle (0, 80) (30, 90) 110 0]"

text \<open>The four vias that \<open>via_small\<close> places on \<open>cell_small\<close>.\<close>

definition vias_small :: "polygon list" where
  "vias_small =
     [Rectangle (7 / 2, 7 / 2) (15 / 2, 15 / 2) 112 0, Rectangle (45 / 2, 7 / 2) (53 / 2, 15 / 2) 112 0,
      Rectangle (7 / 2, 46) (15 / 2, 50) 112 0, Rectangle (45 / 2, 46) (53 / 2, 50) 112 0]"

text \<open>\<open>via_small\<close> with density 0.\<close>

definition via_zero :: ViaGenSpec where
  "via_zero = via_small\<lparr>density := 0\<rparr>"

text \<open>A malformed spec: \<open>max_length < min_length\<close>.\<close>

definition spec_bad :: MetalGenSpec where
  "spec_bad = spec_small\<lparr>min_length := 50, max_length := 10\<rparr>"

text \<open>Four sampled centers on \<open>cell_small\<close>; the second is too close above the first.\<close>

definition centers_close :: "point list" where
  "centers_close = [(11 / 2, 11 / 2), (11 / 2, 8), (11 / 2, 48), (49 / 2, 11 / 2)]"

section \<open>Verified properties\<close>

subsection \<open>Quantized range sampler\<close>

lemma py_round_near: "\<bar>of_int (py_round x) - x\<bar> \<le> 1 / 2"
  unfolding py_round_def Let_def by (auto simp: abs_le_iff)

lemma py_round_nearest: "\<bar>of_int (py_round x) - x\<bar> \<le> \<bar>of_int k - x\<bar>"
proof (cases "k = py_round x")
  case True
  then show ?thesis by simp
next
  case False
  then have "1 \<le> \<bar>k - py_round x\<bar>" by linarith
  then have "(1::real) \<le> \<bar>of_int k - of_int (py_round x)\<bar>"
    by (metis of_int_1_le_iff of_int_abs of_int_diff)
  with py_round_near [of x] show ?thesis by linarith
qed

lemma rng_uniform_range:
  assumes "rng_ok g" "lo \<le> hi"
  shows "lo \<le> fst (rng_uniform g lo hi)" "fst (rng_uniform g lo hi) \<le> hi"
    "lo < hi \<Longrightarrow> fst (rng_uniform g lo hi) < hi"
    "rng_ok (snd (rng_uniform g lo hi))"
proof -
  let ?u = "stream g (pos g)"
  have u: "0 \<le> ?u" "?u < 1" using assms(1) by (auto simp: rng_ok_def)
  have v: "fst (rng_uniform g lo hi) = lo + (hi - lo) * ?u"
    by (simp add: rng_uniform_def rng_random_def)
  have "0 \<le> (hi - lo) * ?u" using u assms(2) by simp
  then show "lo \<le> fst (rng_uniform g lo hi)" using v by simp
  have "(hi - lo) * ?u \<le> (hi - lo) * 1"
    using u assms(2) by (intro mult_left_mono) auto
  then show "fst (rng_uniform g lo hi) \<le> hi" using v by simp
  show "rng_ok (snd (rng_uniform g lo hi))"
    using assms(1) by (simp add: rng_uniform_def rng_random_def rng_ok_def)
  assume "lo < hi"
  then have "(hi - lo) * ?u < (hi - lo) * 1"
    using u by (intro mult_strict_left_mono) auto
  then show "fst (rng_uniform g lo hi) < hi" using v by simp
qed

lemma rand_quantized_cases:
  "rand_quantized g lo hi grid =
     (if grid \<le> 0 then Inr (rng_uniform g (min lo hi) (max lo hi))
      else Inr (min (max (of_int (py_round (fst (rng_uniform g (min lo hi) (max lo hi)) / grid)) * grid)
                      (min lo hi)) (max lo hi),
                snd (rng_uniform g (min lo hi) (max lo hi))))"
  by (auto simp: rand_quantized_def py_truediv_def Let_def min_def max_def split: prod.splits)

text \<open>
  Claim C5. For every generator that keeps the library's contract and all real \<open>lo\<close>,
  \<open>hi\<close>, \<open>grid\<close>, the sampler returns (it raises nothing) a value between
  \<open>min lo hi\<close> and \<open>max lo hi\<close>. With \<open>grid \<le> 0\<close> the value is the uniform draw on the
  swapped bounds, below the upper bound when the bounds differ. With \<open>0 < grid\<close> it is
  the draw rounded to a nearest multiple \<open>n * grid\<close> of the grid, clamped into the bounds.
\<close>

theorem rand_quantized_range:
  assumes "rng_ok g"
  shows "\<exists>v g'. rand_quantized g lo hi grid = Inr (v, g') \<and> rng_ok g' \<and>
           min lo hi \<le> v \<and> v \<le> max lo hi \<and>
           (grid \<le> 0 \<longrightarrow> (v, g') = rng_uniform g (min lo hi) (max lo hi) \<and>
                         (lo \<noteq> hi \<longrightarrow> v < max lo hi)) \<and>
           (0 < grid \<longrightarrow>
              (\<exists>val n. (val, g') = rng_uniform g (min lo hi) (max lo hi) \<and>
                  min lo hi \<le> val \<and> val \<le> max lo hi \<and>
                  (\<forall>k. \<bar>of_int n * grid - val\<bar> \<le> \<bar>of_int k * grid - val\<bar>) \<and>
                  v = min (max (of_int n * grid) (min lo hi)) (max lo hi)))"
proof -
  let ?lo = "min lo hi" and ?hi = "max lo hi"
  let ?r = "rng_uniform g ?lo ?hi"
  have le: "?lo \<le> ?hi" by simp
  note u = rng_uniform_range [OF assms le]
  show ?thesis
  proof (cases "grid \<le> 0")
    case True
    have "lo \<noteq> hi \<Longrightarrow> fst ?r < ?hi" using u(3) by (simp add: min_def max_def)
    with True u show ?thesis
      by (intro exI [of _ "fst ?r"] exI [of _ "snd ?r"]) (simp add: rand_quantized_cases)
  next
    case False
    then have gp: "0 < grid" by simp
    let ?n = "py_round (fst ?r / grid)"
    have near: "\<bar>of_int ?n * grid - fst ?r\<bar> \<le> \<bar>of_int k * grid - fst ?r\<bar>" for k
    proof -
      have "\<bar>of_int ?n - fst ?r / grid\<bar> * grid \<le> \<bar>of_int k - fst ?r / grid\<bar> * grid"
        using py_round_nearest [of "fst ?r / grid" k] gp by (intro mult_right_mono) auto
      moreover have "\<bar>of_int j - fst ?r / grid\<bar> * grid = \<bar>of_int j * grid - fst ?r\<bar>" for j :: int
      proof -
        have "\<bar>of_int j - fst ?r / grid\<bar> * grid = \<bar>(of_int j - fst ?r / grid) * grid\<bar>"
          using gp by (simp add: abs_mult)
        also have "(of_int j - fst ?r / grid) * grid = of_int j * grid - fst ?r"
          using gp by (simp add: left_diff_distrib)
        finally show ?thesis .
      qed
      ultimately show ?thesis by simp
    qed
    let ?v = "min (max (of_int ?n * grid) ?lo) ?hi"
    have run: "rand_quantized g lo hi grid = Inr (?v, snd ?r)"
      using gp by (simp add: rand_quantized_cases)
    have rng: "?lo \<le> ?v" "?v \<le> ?hi"
      by (simp_all add: min_def max_def)
    have q: "\<exists>val n. (val, snd ?r) = ?r \<and> ?lo \<le> val \<and> val \<le> ?hi \<and>
               (\<forall>k. \<bar>of_int n * grid - val\<bar> \<le> \<bar>of_int k * grid - val\<bar>) \<and>
               ?v = min (max (of_int n * grid) ?lo) ?hi"
      using near u(1,2) by (intro exI [of _ "fst ?r"] exI [of _ "?n"]) simp
    from False run rng q u(4) show ?thesis by blast
  qed
qed

lemma g_half_ok: "rng_ok g_half"
  by (simp add: rng_ok_def g_half_def)

lemma rq_eval: "rand_quantized g_half 42 315 21 = Inr (168, g_half\<lparr>pos := 1\<rparr>)"
  by (simp add: rand_quantized_cases g_half_def rng_uniform_def rng_random_def py_round_def)

theorem rand_quantized_range_witness:
  "rng_ok g_half \<and>
   (\<exists>v g'. rand_quantized g_half 42 315 21 = Inr (v, g') \<and> rng_ok g' \<and> 42 \<le> v \<and> v \<le> 315) \<and>
   rand_quantized g_half 42 315 21 = Inr (168, g_half\<lparr>pos := 1\<rparr>)"
proof -
  from rand_quantized_range [OF g_half_ok, of 42 315 21]
  obtain v g' where "rand_quantized g_half 42 315 21 = Inr (v, g')" "rng_ok g'"
    "min 42 315 \<le> v" "v \<le> max 42 315"
    by blast
  then have "\<exists>v g'. rand_quantized g_half 42 315 21 = Inr (v, g') \<and> rng_ok g' \<and> 42 \<le> v \<and> v \<le> 315"
    by auto
  with g_half_ok rq_eval show ?thesis by blast
qed

subsection \<open>Track generator: totality and shape of the output\<close>

lemma rect_p1_Rectangle [simp]: "rect_p1 (Rectangle a b l d) = a"
  by (simp add: rect_p1_def Rectangle_def rect_verts_def)

lemma rect_p2_Rectangle [simp]: "rect_p2 (Rectangle a b l d) = b"
  by (simp add: rect_p2_def Rectangle_def rect_verts_def)

lemma pts_Rectangle: "pts (Rectangle a b l d) = rect_verts a b"
  by (simp add: Rectangle_def)

lemma rand_quantized_Inr:
  assumes "rng_ok g" "lo \<le> hi"
  obtains v g' where "rand_quantized g lo hi grid = Inr (v, g')" "rng_ok g'" "lo \<le> v" "v \<le> hi"
proof -
  have m: "min lo hi = lo" "max lo hi = hi" using assms(2) by auto
  note u = rng_uniform_range [OF assms]
  show ?thesis
  proof (cases "grid \<le> 0")
    case True
    then have "rand_quantized g lo hi grid = Inr (fst (rng_uniform g lo hi), snd (rng_uniform g lo hi))"
      by (simp add: rand_quantized_cases m)
    with u show ?thesis by (intro that [of "fst (rng_uniform g lo hi)" "snd (rng_uniform g lo hi)"])
  next
    case False
    let ?v = "min (max (of_int (py_round (fst (rng_uniform g lo hi) / grid)) * grid) lo) hi"
    from False have "rand_quantized g lo hi grid = Inr (?v, snd (rng_uniform g lo hi))"
      by (simp add: rand_quantized_cases m)
    moreover have "lo \<le> ?v" "?v \<le> hi" using assms(2) by (simp_all add: min_def max_def)
    ultimately show ?thesis using u(4) by (intro that [of ?v "snd (rng_uniform g lo hi)"])
  qed
qed

lemma seg_ok_mono: "seg_ok spec x y' r \<Longrightarrow> y \<le> y' \<Longrightarrow> seg_ok spec x y r"
  unfolding seg_ok_def by force

lemma track_loop_total:
  assumes v: "0 < min_length spec" "0 \<le> min_t2t spec"
  shows "rng_ok g \<Longrightarrow>
         \<exists>segs g'. track_loop spec x_base y ps g = Some (Inr (ps @ segs, g')) \<and> rng_ok g' \<and>
                   list_all (seg_ok spec x_base y) segs"
proof (induction "nat \<lceil>(total_y spec - y) / min_length spec\<rceil>" arbitrary: y ps g rule: less_induct)
  case less
  let ?ty = "total_y spec"
  let ?lhi = "min (max_length spec) (?ty - y)"
  show ?case
  proof (cases "y < ?ty")
    case False
    then have "track_loop spec x_base y ps g = Some (Inr (ps @ [], g))"
      by (subst track_loop.simps) simp
    with less.prems show ?thesis by (intro exI [of _ "[]"] exI [of _ g]) simp
  next
    case yl: True
    show ?thesis
    proof (cases "?lhi < min_length spec")
      case True
      with yl have "track_loop spec x_base y ps g = Some (Inr (ps @ [], g))"
        by (subst track_loop.simps) simp
      with less.prems show ?thesis by (intro exI [of _ "[]"] exI [of _ g]) simp
    next
      case lh: False
      then have le1: "min_length spec \<le> ?lhi" by linarith
      from rand_quantized_Inr [OF less.prems le1, of 0]
      obtain l g1 where l: "rand_quantized g (min_length spec) ?lhi 0 = Inr (l, g1)"
        "rng_ok g1" "min_length spec \<le> l" "l \<le> ?lhi" by blast
      let ?rect = "Rectangle (fst (origin spec) + x_base, snd (origin spec) + y)
                     (fst (origin spec) + x_base + wire_cd spec, snd (origin spec) + y + l)
                     (layer spec) (dtype spec)"
      have rect: "seg_ok spec x_base y ?rect"
        unfolding seg_ok_def using l(3,4) by (intro exI [of _ y] exI [of _ l]) simp
      let ?thi = "min (max_t2t spec) (?ty - (y + l))"
      show ?thesis
      proof (cases "?ty \<le> y + l \<or> ?thi < min_t2t spec")
        case True
        with yl lh l(1) have "track_loop spec x_base y ps g = Some (Inr (ps @ [?rect], g1))"
          by (subst track_loop.simps) (auto simp: Let_def)
        with l(2) rect show ?thesis by (intro exI [of _ "[?rect]"] exI [of _ g1]) simp
      next
        case False
        then have c: "\<not> ?ty \<le> y + l" "\<not> ?thi < min_t2t spec" by auto
        then have le2: "min_t2t spec \<le> ?thi" by linarith
        from rand_quantized_Inr [OF l(2) le2, of "t2t_grid spec"]
        obtain t g2 where t: "rand_quantized g1 (min_t2t spec) ?thi (t2t_grid spec) = Inr (t, g2)"
          "rng_ok g2" "min_t2t spec \<le> t" "t \<le> ?thi" by blast
        have step: "track_loop spec x_base y ps g = track_loop spec x_base (y + l + t) (ps @ [?rect]) g2"
          using yl lh l(1) c t(1) by (subst track_loop.simps) (simp add: Let_def)
        have adv: "y + min_length spec \<le> y + l + t" using l(3) t(3) v by simp
        have "nat \<lceil>(?ty - (y + l + t)) / min_length spec\<rceil> < nat \<lceil>(?ty - y) / min_length spec\<rceil>"
        proof -
          have "(?ty - (y + l + t)) / min_length spec \<le> (?ty - y - min_length spec) / min_length spec"
            using adv v(1) by (intro divide_right_mono) auto
          also have "\<dots> = (?ty - y) / min_length spec - 1"
            using v(1) by (simp add: diff_divide_distrib)
          finally have "(?ty - (y + l + t)) / min_length spec \<le> (?ty - y) / min_length spec - 1" .
          then have "\<lceil>(?ty - (y + l + t)) / min_length spec\<rceil> \<le> \<lceil>(?ty - y) / min_length spec\<rceil> - 1"
            by (metis ceiling_mono ceiling_diff_one)
          moreover have "0 < \<lceil>(?ty - y) / min_length spec\<rceil>"
            using yl v(1) by simp
          ultimately show ?thesis by linarith
        qed
        from less.hyps [OF this t(2)]
        obtain segs g' where r: "track_loop spec x_base (y + l + t) (ps @ [?rect]) g2 =
            Some (Inr ((ps @ [?rect]) @ segs, g'))" "rng_ok g'"
            "list_all (seg_ok spec x_base (y + l + t)) segs" by blast
        have "y \<le> y + l + t" using adv v(1) by simp
        with r(3) have "list_all (seg_ok spec x_base y) segs"
          by (auto simp: list_all_iff intro: seg_ok_mono)
        with rect r step show ?thesis
          by (intro exI [of _ "?rect # segs"] exI [of _ g']) simp
      qed
    qed
  qed
qed

lemma track_ok_mono: "track_ok spec x' r \<Longrightarrow> x \<le> x' \<Longrightarrow> track_ok spec x r"
  unfolding track_ok_def by (meson order_trans)

lemma column_loop_total:
  assumes v: "0 < min_length spec" "0 \<le> min_t2t spec" "0 < track_pitch spec"
  shows "rng_ok g \<Longrightarrow>
         \<exists>segs g'. column_loop spec x ps g = Some (Inr (ps @ segs, g')) \<and> rng_ok g' \<and>
                   list_all (track_ok spec x) segs"
proof (induction "nat (\<lfloor>(total_x spec - wire_cd spec - x) / track_pitch spec\<rfloor> + 1)"
         arbitrary: x ps g rule: less_induct)
  case less
  let ?p = "track_pitch spec"
  show ?case
  proof (cases "x + wire_cd spec \<le> total_x spec")
    case False
    then have "column_loop spec x ps g = Some (Inr (ps @ [], g))"
      by (subst column_loop.simps) simp
    with less.prems show ?thesis by (intro exI [of _ "[]"] exI [of _ g]) simp
  next
    case True
    from track_loop_total [OF v(1,2) less.prems, of x 0 ps]
    obtain s1 g1 where c: "draw_one_track_vertical ps x spec g = Some (Inr (ps @ s1, g1))"
      "rng_ok g1" "list_all (seg_ok spec x 0) s1"
      unfolding draw_one_track_vertical_def by blast
    have step: "column_loop spec x ps g = column_loop spec (x + ?p) (ps @ s1) g1"
      using True c(1) by (subst column_loop.simps) simp
    have "nat (\<lfloor>(total_x spec - wire_cd spec - (x + ?p)) / ?p\<rfloor> + 1)
          < nat (\<lfloor>(total_x spec - wire_cd spec - x) / ?p\<rfloor> + 1)"
    proof -
      have "(total_x spec - wire_cd spec - (x + ?p)) / ?p = (total_x spec - wire_cd spec - x) / ?p - 1"
        using v(3) by (simp add: diff_divide_distrib add_divide_distrib)
      then have "\<lfloor>(total_x spec - wire_cd spec - (x + ?p)) / ?p\<rfloor>
                 = \<lfloor>(total_x spec - wire_cd spec - x) / ?p\<rfloor> - 1"
        by simp
      moreover have "0 \<le> \<lfloor>(total_x spec - wire_cd spec - x) / ?p\<rfloor>"
        using True v(3) by simp
      ultimately show ?thesis by linarith
    qed
    from less.hyps [OF this c(2)]
    obtain s2 g' where r: "column_loop spec (x + ?p) (ps @ s1) g1 = Some (Inr ((ps @ s1) @ s2, g'))"
      "rng_ok g'" "list_all (track_ok spec (x + ?p)) s2" by blast
    have "list_all (track_ok spec x) s1"
      using c(3) True by (auto simp: list_all_iff track_ok_def)
    moreover have "list_all (track_ok spec x) s2"
      using r(3) v(3) by (auto simp: list_all_iff intro: track_ok_mono)
    ultimately show ?thesis using r step
      by (intro exI [of _ "s1 @ s2"] exI [of _ g']) simp
  qed
qed

lemma default_rng_ok:
  "env_ok env \<Longrightarrow> default_rng env sd = Inr g \<Longrightarrow> rng_ok g"
  by (auto simp: env_ok_def default_rng_def rng_ok_def split: option.splits if_splits)

lemma draw_metal_cell_vertical_total:
  assumes "valid_metal spec" "env_ok env" "seed_ok spec"
  shows "\<exists>ps. draw_metal_cell_vertical env spec = Some (Inr [(cell_name spec, ps)]) \<and>
              list_all (track_ok spec 0) ps"
proof -
  from assms(3) obtain g where g: "default_rng env (seed spec) = Inr g"
    by (auto simp: seed_ok_def default_rng_def split: option.splits)
  then have "rng_ok g" using assms(2) by (rule default_rng_ok [rotated])
  moreover have "0 < min_length spec" "0 \<le> min_t2t spec" "0 < track_pitch spec"
    using assms(1) by (simp_all add: valid_metal_def)
  ultimately obtain segs g' where "column_loop spec 0 [] g = Some (Inr ([] @ segs, g'))"
    "list_all (track_ok spec 0) segs"
    using column_loop_total [of spec g 0 "[]"] by blast
  with g show ?thesis by (simp add: draw_metal_cell_vertical_def)
qed

text \<open>
  Claim C9. For every spec that satisfies the data-model invariants, and a generator
  library that keeps its contract, \<^verbatim>\<open>draw_metal_cell_vertical\<close> returns: with a library
  of one cell when the seed is accepted, with \<^verbatim>\<open>ValueError\<close> from the seeding otherwise.
  The column cursor advances by at least \<open>min_length\<close> per segment and \<open>x\<close> by
  \<open>track_pitch\<close> per column (lemmas \<open>track_loop_total\<close>, \<open>column_loop_total\<close>).
\<close>

theorem draw_metal_cell_vertical_terminates:
  assumes "valid_metal spec" "env_ok env"
  shows "if seed_ok spec
         then \<exists>ps. draw_metal_cell_vertical env spec = Some (Inr [(cell_name spec, ps)])
         else draw_metal_cell_vertical env spec = Some (Inl ValueError)"
proof (cases "seed_ok spec")
  case True
  with draw_metal_cell_vertical_total [OF assms True] show ?thesis by auto
next
  case False
  then have "default_rng env (seed spec) = Inl ValueError"
    by (auto simp: seed_ok_def default_rng_def split: option.splits)
  with False show ?thesis by (simp add: draw_metal_cell_vertical_def)
qed

lemma rq_half:
  "rand_quantized \<lparr>stream = (\<lambda>_. 1 / 2), pos = n\<rparr> lo hi grid =
     (if grid \<le> 0 then Inr (min lo hi + (max lo hi - min lo hi) / 2, \<lparr>stream = (\<lambda>_. 1 / 2), pos = Suc n\<rparr>)
      else Inr (min (max (of_int (py_round ((min lo hi + (max lo hi - min lo hi) / 2) / grid)) * grid)
                      (min lo hi)) (max lo hi), \<lparr>stream = (\<lambda>_. 1 / 2), pos = Suc n\<rparr>))"
  by (simp add: rand_quantized_cases rng_uniform_def rng_random_def)

lemma col_small:
  "track_loop spec_small x 0 ps \<lparr>stream = (\<lambda>_. 1 / 2), pos = n\<rparr> =
     Some (Inr (ps @ [Rectangle (x, 0) (x + 10, 30) 111 0, Rectangle (x, 45) (x + 10, 75) 111 0],
                \<lparr>stream = (\<lambda>_. 1 / 2), pos = n + 4\<rparr>))"
  apply (subst track_loop.simps)
  apply (simp add: spec_small_def rq_half py_round_def Let_def)
  apply (subst track_loop.simps)
  apply (simp add: spec_small_def rq_half py_round_def Let_def)
  apply (subst track_loop.simps)
  apply (simp add: spec_small_def rq_half py_round_def Let_def)
  done

lemma spec_small_valid: "valid_metal spec_small"
  by (simp add: valid_metal_def spec_small_def)

lemma env_half_ok: "env_ok env_half"
  by (simp add: env_ok_def env_half_def)

lemma draw_small:
  "draw_metal_cell_vertical env_half spec_small =
     Some (Inr [(''metal_cell'',
       [Rectangle (0, 0) (10, 30) 111 0, Rectangle (0, 45) (10, 75) 111 0,
        Rectangle (20, 0) (30, 30) 111 0, Rectangle (20, 45) (30, 75) 111 0])])"
proof -
  have d: "default_rng env_half (seed spec_small) = Inr \<lparr>stream = (\<lambda>_. 1 / 2), pos = 0\<rparr>"
    by (simp add: default_rng_def env_half_def spec_small_def)
  have g: "\<not> (20 + track_pitch spec_small + wire_cd spec_small \<le> total_x spec_small)"
    "0 + wire_cd spec_small \<le> total_x spec_small"
    "0 + track_pitch spec_small = 20" "20 + wire_cd spec_small \<le> total_x spec_small"
    by (simp_all add: spec_small_def)
  have "column_loop spec_small 0 [] \<lparr>stream = (\<lambda>_. 1 / 2), pos = 0\<rparr> =
     Some (Inr ([Rectangle (0, 0) (10, 30) 111 0, Rectangle (0, 45) (10, 75) 111 0,
        Rectangle (20, 0) (30, 30) 111 0, Rectangle (20, 45) (30, 75) 111 0],
        \<lparr>stream = (\<lambda>_. 1 / 2), pos = 8\<rparr>))"
    apply (subst column_loop.simps)
    apply (simp only: g if_True draw_one_track_vertical_def col_small bind.simps sum.case prod.case)
    apply (subst column_loop.simps)
    apply (simp only: g if_True draw_one_track_vertical_def col_small bind.simps sum.case prod.case)
    apply (subst column_loop.simps)
    apply (simp add: g)
    done
  with d show ?thesis
    by (simp add: draw_metal_cell_vertical_def spec_small_def)
qed

theorem draw_metal_cell_vertical_terminates_witness:
  "valid_metal spec_small \<and> env_ok env_half \<and> seed_ok spec_small \<and>
   (\<exists>ps. draw_metal_cell_vertical env_half spec_small = Some (Inr [(cell_name spec_small, ps)])) \<and>
   draw_metal_cell_vertical env_half spec_small =
     Some (Inr [(''metal_cell'',
       [Rectangle (0, 0) (10, 30) 111 0, Rectangle (0, 45) (10, 75) 111 0,
        Rectangle (20, 0) (30, 30) 111 0, Rectangle (20, 45) (30, 75) 111 0])])"
proof -
  have s: "seed_ok spec_small" by (simp add: seed_ok_def spec_small_def)
  from draw_metal_cell_vertical_terminates [OF spec_small_valid env_half_ok] s
  have "\<exists>ps. draw_metal_cell_vertical env_half spec_small = Some (Inr [(cell_name spec_small, ps)])"
    by simp
  with s spec_small_valid env_half_ok draw_small show ?thesis by blast
qed

subsection \<open>Track generator: gaps between consecutive segments\<close>

lemma rand_quantized_bounds:
  assumes "rand_quantized g lo hi grid = Inr (v, g')" "rng_ok g" "lo \<le> hi"
  shows "lo \<le> v \<and> v \<le> hi \<and> rng_ok g'"
  using rand_quantized_Inr [OF assms(2,3), of grid] assms(1) by auto

lemma track_loop_gaps:
  assumes "track_loop spec x_base y ps g = Some r"
  shows "rng_ok g \<longrightarrow>
         (\<forall>ps' g'. r = Inr (ps', g') \<longrightarrow>
            (\<exists>segs. ps' = ps @ segs \<and> successively (gap_ok spec) segs \<and>
                    (segs \<noteq> [] \<longrightarrow> snd (rect_p1 (hd segs)) = snd (origin spec) + y)))"
proof (rule track_loop.raw_induct
    [where P = "\<lambda>spec x_base y ps g r. rng_ok g \<longrightarrow>
         (\<forall>ps' g'. r = Inr (ps', g') \<longrightarrow>
            (\<exists>segs. ps' = ps @ segs \<and> successively (gap_ok spec) segs \<and>
                    (segs \<noteq> [] \<longrightarrow> snd (rect_p1 (hd segs)) = snd (origin spec) + y)))",
     OF _ assms], goal_cases)
  case (1 f spec x_base y ps g r)
  let ?ty = "total_y spec"
  let ?lhi = "min (max_length spec) (?ty - y)"
  show ?case
  proof (intro impI allI)
    fix ps' g'
    assume ok: "rng_ok g" and r: "r = Inr (ps', g')"
    let ?goal = "\<exists>segs. ps' = ps @ segs \<and> successively (gap_ok spec) segs \<and>
                    (segs \<noteq> [] \<longrightarrow> snd (rect_p1 (hd segs)) = snd (origin spec) + y)"
    show ?goal
    proof (cases "y < ?ty \<and> \<not> ?lhi < min_length spec")
      case False
      have "Some (Inr (ps, g)) = Some r"
      proof (cases "y < ?ty")
        case True
        with False have "?lhi < min_length spec" by blast
        with True 1(2) show ?thesis by (simp only: if_True)
      next
        case False
        with 1(2) show ?thesis by (simp only: if_False)
      qed
      with r have "ps' = ps" by simp
      then show ?thesis by (intro exI [of _ "[]"]) simp
    next
      case True
      then have le1: "min_length spec \<le> ?lhi" by linarith
      from rand_quantized_Inr [OF ok le1, of 0]
      obtain l g1 where l: "rand_quantized g (min_length spec) ?lhi 0 = Inr (l, g1)" "rng_ok g1"
        by blast
      from True have yl: "y < ?ty" and nl: "\<not> ?lhi < min_length spec" by blast+
      note b1 = 1(2) [simplified yl nl if_True if_False l(1) sum.case prod.case Let_def]
      let ?rect = "Rectangle (fst (origin spec) + x_base, snd (origin spec) + y)
                     (fst (origin spec) + x_base + wire_cd spec, snd (origin spec) + y + l)
                     (layer spec) (dtype spec)"
      let ?thi = "min (max_t2t spec) (?ty - (y + l))"
      show ?thesis
      proof (cases "?ty \<le> y + l \<or> ?thi < min_t2t spec")
        case stop: True
        have "Some (Inr (ps @ [?rect], g1)) = Some r"
        proof (cases "?ty \<le> y + l")
          case True
          with b1 show ?thesis by (simp only: if_True)
        next
          case False
          with stop have "?thi < min_t2t spec" by blast
          with False b1 show ?thesis by (simp only: if_True if_False)
        qed
        with r have "ps' = ps @ [?rect]" by simp
        then show ?thesis by (intro exI [of _ "[?rect]"]) simp
      next
        case False
        then have c: "\<not> ?ty \<le> y + l" "\<not> ?thi < min_t2t spec" by auto
        then have le2: "min_t2t spec \<le> ?thi" by linarith
        from rand_quantized_Inr [OF l(2) le2, of "t2t_grid spec"]
        obtain t g2 where t: "rand_quantized g1 (min_t2t spec) ?thi (t2t_grid spec) = Inr (t, g2)"
          "rng_ok g2" "min_t2t spec \<le> t" "t \<le> ?thi" by blast
        have "f spec x_base (y + l + t) (ps @ [?rect]) g2 = Some r"
          using b1 by (simp only: c if_False t(1) sum.case prod.case)
        from 1(1) [OF this] t(2) r
        obtain segs where s: "ps' = (ps @ [?rect]) @ segs" "successively (gap_ok spec) segs"
          "segs \<noteq> [] \<longrightarrow> snd (rect_p1 (hd segs)) = snd (origin spec) + (y + l + t)"
          by blast
        have "successively (gap_ok spec) (?rect # segs)"
          using s(2,3) t(3,4) by (cases segs) (auto simp: gap_ok_def)
        with s(1) show ?thesis by (intro exI [of _ "?rect # segs"]) simp
      qed
    qed
  qed
qed

text \<open>
  Claim C6. In the column that \<^verbatim>\<open>_draw_one_track_vertical\<close> appends to a cell, with a
  generator that keeps the library's contract, the gap from the end of every segment to
  the start of the next one lies in \<open>[min_t2t, max_t2t]\<close>. The bounds need no
  quantization tolerance over the reals, and the hypothesis \<open>0 < min_t2t \<le> max_t2t\<close> of
  the claim is not needed.
\<close>

theorem track_gaps_legal:
  assumes "rng_ok g" "draw_one_track_vertical ps x_base spec g = Some (Inr (ps', g'))"
  shows "\<exists>segs. ps' = ps @ segs \<and> successively (gap_ok spec) segs"
  using track_loop_gaps [of spec x_base 0 ps g "Inr (ps', g')"] assms
  unfolding draw_one_track_vertical_def by blast

theorem track_gaps_legal_witness:
  "rng_ok g_half \<and>
   draw_one_track_vertical [] 0 spec_small g_half =
     Some (Inr ([Rectangle (0, 0) (10, 30) 111 0, Rectangle (0, 45) (10, 75) 111 0],
                g_half\<lparr>pos := 4\<rparr>)) \<and>
   successively (gap_ok spec_small)
     [Rectangle (0, 0) (10, 30) 111 0, Rectangle (0, 45) (10, 75) 111 0]"
proof -
  have run: "draw_one_track_vertical [] 0 spec_small g_half =
     Some (Inr ([Rectangle (0, 0) (10, 30) 111 0, Rectangle (0, 45) (10, 75) 111 0],
                g_half\<lparr>pos := 4\<rparr>))"
    using col_small [of 0 "[]" 0] by (simp add: draw_one_track_vertical_def g_half_def)
  from track_gaps_legal [OF g_half_ok run]
  have "successively (gap_ok spec_small)
     [Rectangle (0, 0) (10, 30) 111 0, Rectangle (0, 45) (10, 75) 111 0]" by simp
  with g_half_ok run show ?thesis by blast
qed

subsection \<open>Pitch cleaner: survivors are input points\<close>

lemma mset_pitch_sweep: "mset (pitch_sweep coord vp lst xs) \<subseteq># mset xs"
proof (induction xs arbitrary: lst)
  case Nil
  then show ?case by simp
next
  case (Cons x xs)
  have a: "mset (pitch_sweep coord vp l xs) \<subseteq># add_mset x (mset xs)" for l
    using Cons [of l] by (meson mset_subset_eq_add_mset_cancel subset_mset.order_trans
        multi_psub_of_add_self subset_mset.less_imp_le)
  show ?case using Cons a by (auto split: option.splits)
qed

lemma set_pitch_sweep: "set (pitch_sweep coord vp lst xs) \<subseteq> set xs"
  using mset_pitch_sweep [of coord vp lst xs] by (metis set_mset_mono set_mset_mset)

lemma fst_setdefault_append:
  "set (map fst (setdefault_append m k v)) = insert k (set (map fst m))"
  by (induction m k v rule: setdefault_append.induct) auto

lemma grouped_setdefault_append:
  "grouped track m \<Longrightarrow> grouped track (setdefault_append m (track v) v)"
proof (induction m "track v" v rule: setdefault_append.induct)
  case (1 v)
  then show ?case by (simp add: grouped_def)
next
  case (2 k' vs m v)
  show ?case
  proof (cases "k' = track v")
    case True
    with 2(2) show ?thesis by (auto simp: grouped_def)
  next
    case False
    from 2(2) have g: "grouped track m" by (auto simp: grouped_def)
    from 2(1) [OF False g] have "grouped track (setdefault_append m (track v) v)" .
    moreover have "k' \<notin> set (map fst (setdefault_append m (track v) v))"
      using 2(2) False by (auto simp: fst_setdefault_append grouped_def simp del: set_map)
    ultimately show ?thesis using 2(2) False by (auto simp: grouped_def)
  qed
qed

lemma mset_setdefault_append:
  "mset (concat (map snd (setdefault_append m k v))) = add_mset v (mset (concat (map snd m)))"
  by (induction m k v rule: setdefault_append.induct) auto

lemma foldl_group:
  "grouped track m \<Longrightarrow>
   grouped track (foldl (\<lambda>m c. setdefault_append m (track c) c) m cs) \<and>
   mset (concat (map snd (foldl (\<lambda>m c. setdefault_append m (track c) c) m cs))) =
     mset (concat (map snd m)) + mset cs"
proof (induction cs arbitrary: m)
  case Nil
  then show ?case by simp
next
  case (Cons c cs)
  from Cons.IH [OF grouped_setdefault_append [OF Cons.prems, of c]]
  show ?case by (simp add: mset_setdefault_append)
qed

lemma grouped_group_points: "grouped track (group_points track cs)"
  unfolding group_points_def using foldl_group [of track "[]" cs] by (simp add: grouped_def)

lemma mset_group_points: "mset (concat (map snd (group_points track cs))) = mset cs"
  unfolding group_points_def using foldl_group [of track "[]" cs] by (simp add: grouped_def)

lemma mset_concat_sweeps:
  "mset (concat (map (\<lambda>(k, grp). pitch_sweep coord vp None (sort_key coord grp)) m))
   \<subseteq># mset (concat (map snd m))"
proof (induction m)
  case Nil
  then show ?case by simp
next
  case (Cons a m)
  obtain k grp where a: "a = (k, grp)" by (cases a)
  have "mset (pitch_sweep coord vp None (sort_key coord grp)) \<subseteq># mset grp"
    using mset_pitch_sweep [of coord vp None "sort_key coord grp"] by simp
  with Cons a show ?case by (simp add: subset_mset.add_mono)
qed

lemma mset_clean_pass: "mset (clean_pass track coord vp cs) \<subseteq># mset cs"
  unfolding clean_pass_def
  using mset_concat_sweeps [of coord vp "group_points track cs"]
  by (simp add: mset_group_points)

lemma mset_pitch_clean: "mset (pitch_clean cs vpx vpy pm1 pm2) \<subseteq># mset cs"
proof (cases "cs = []")
  case True
  then show ?thesis by (simp add: pitch_clean_def)
next
  case False
  have "mset (clean_pass (row_of (y_tracks_of pm1)) fst vpx (column_clean cs vpy pm2))
        \<subseteq># mset (column_clean cs vpy pm2)"
    by (rule mset_clean_pass)
  also have "\<dots> \<subseteq># mset cs"
    unfolding column_clean_def by (rule mset_clean_pass)
  finally show ?thesis using False by (simp add: pitch_clean_def)
qed

subsection \<open>Pitch cleaner: the sweep keeps points a pitch apart\<close>

lemma pitch_sweep_Some:
  assumes "sorted (map coord xs)" "\<forall>x \<in> set xs. coord l \<le> coord x"
  shows "sorted_wrt (\<lambda>a b. apart vp (coord a) (coord b)) (pitch_sweep coord vp (Some l) xs) \<and>
         (\<forall>e \<in> set (pitch_sweep coord vp (Some l) xs). apart vp (coord l) (coord e))"
  using assms
proof (induction xs arbitrary: l)
  case Nil
  then show ?case by simp
next
  case (Cons x xs)
  have s: "sorted (map coord xs)" and xl: "\<forall>y \<in> set xs. coord x \<le> coord y"
    using Cons.prems(1) by auto
  have lx: "coord l \<le> coord x" and ll: "\<forall>y \<in> set xs. coord l \<le> coord y"
    using Cons.prems(2) by auto
  show ?case
  proof (cases "vp \<le> coord x - coord l")
    case True
    from Cons.IH [OF s xl]
    have ih: "sorted_wrt (\<lambda>a b. apart vp (coord a) (coord b)) (pitch_sweep coord vp (Some x) xs)"
      "\<forall>e \<in> set (pitch_sweep coord vp (Some x) xs). apart vp (coord x) (coord e)" by auto
    have "apart vp (coord l) (coord e)" if "e \<in> set (pitch_sweep coord vp (Some x) xs)" for e
    proof -
      have "e \<in> set xs" using that set_pitch_sweep by blast
      then have "coord l \<le> coord e" using ll by blast
      moreover have "vp \<le> coord e - coord l"
        using ih(2) that True lx unfolding apart_def
        by (smt (verit, best))
      ultimately show ?thesis by (simp add: apart_def)
    qed
    with True ih lx show ?thesis by (auto simp: apart_def)
  next
    case False
    with Cons.IH [OF s ll] show ?thesis by simp
  qed
qed

lemma pitch_sweep_None:
  assumes "sorted (map coord xs)"
  shows "sorted_wrt (\<lambda>a b. apart vp (coord a) (coord b)) (pitch_sweep coord vp None xs)"
proof (cases xs)
  case Nil
  then show ?thesis by simp
next
  case (Cons x rest)
  with assms have "sorted (map coord rest)" "\<forall>y \<in> set rest. coord x \<le> coord y" by auto
  from pitch_sweep_Some [OF this, of vp] Cons show ?thesis by simp
qed

lemma sweep_sorted_group:
  "sorted_wrt (apart vp) (map coord (pitch_sweep coord vp None (sort_key coord grp)))"
proof -
  have "sorted (map coord (sort_key coord grp))" by (rule sorted_sort_key)
  from pitch_sweep_None [OF this, of vp] show ?thesis by (simp add: sorted_wrt_map)
qed

text \<open>Filtering the output of a pass by a track gives the sweep of that track's group.\<close>

lemma filter_concat_groups:
  assumes "grouped track m" "\<And>grp. set (F grp) \<subseteq> set grp"
  shows "filter (\<lambda>c. track c = k) (concat (map (\<lambda>(k, grp). F grp) m)) =
         (case map_of m k of None \<Rightarrow> [] | Some grp \<Rightarrow> F grp)"
  using assms(1)
proof (induction m)
  case Nil
  then show ?case by simp
next
  case (Cons a m)
  obtain k' grp where a: "a = (k', grp)" by (cases a)
  from Cons.prems a have g: "grouped track m" and all: "\<forall>v \<in> set grp. track v = k'"
    and nk: "k' \<notin> fst ` set m"
    by (auto simp: grouped_def)
  have tr: "\<forall>v \<in> set (F grp). track v = k'" using all assms(2) by blast
  show ?case
  proof (cases "k' = k")
    case True
    then have "map_of m k = None" using nk by (simp add: map_of_eq_None_iff)
    moreover have "filter (\<lambda>c. track c = k) (F grp) = F grp"
      using tr True by (simp add: filter_id_conv)
    ultimately show ?thesis using Cons.IH [OF g] a True by simp
  next
    case False
    then have "filter (\<lambda>c. track c = k) (F grp) = []"
      using tr by (auto simp: filter_empty_conv)
    with Cons.IH [OF g] a False show ?thesis by simp
  qed
qed

lemma filter_clean_pass:
  "filter (\<lambda>c. track c = k) (clean_pass track coord vp cs) =
     (case map_of (group_points track cs) k of
        None \<Rightarrow> []
      | Some grp \<Rightarrow> pitch_sweep coord vp None (sort_key coord grp))"
  unfolding clean_pass_def
proof (rule filter_concat_groups [OF grouped_group_points])
  fix grp :: "point list"
  show "set (pitch_sweep coord vp None (sort_key coord grp)) \<subseteq> set grp"
    using set_pitch_sweep [of coord vp None "sort_key coord grp"] by simp
qed

lemma clean_pass_track_apart:
  "sorted_wrt (apart vp) (map coord (filter (\<lambda>c. track c = k) (clean_pass track coord vp cs)))"
  by (simp add: filter_clean_pass sweep_sorted_group split: option.splits)

lemma sorted_of_apart: "sorted_wrt (apart vp) ys \<Longrightarrow> sorted ys"
  by (erule sorted_wrt_mono_rel [rotated]) (simp add: apart_def)

lemma gaps_of_apart: "sorted_wrt (apart vp) ys \<Longrightarrow> successively (\<lambda>a b. vp \<le> b - a) ys"
  by (rule successively_if_sorted_wrt, erule sorted_wrt_mono_rel [rotated]) (simp add: apart_def)

lemma distinct_of_neq: "sorted_wrt (\<lambda>a b. a \<noteq> b) ys \<Longrightarrow> distinct ys"
  by (induction ys) auto

text \<open>A sorted sub-multiset of a list whose elements are a pitch apart is a pitch apart.\<close>

lemma sub_mset_apart:
  assumes ys: "sorted_wrt (apart vp) ys" and sub: "mset zs \<subseteq># mset ys" and zs: "sorted zs"
  shows "successively (\<lambda>a b. vp \<le> b - a) zs"
proof (cases "vp \<le> 0")
  case True
  have "sorted_wrt (\<lambda>a b. vp \<le> b - a) zs"
    using zs True by (elim sorted_wrt_mono_rel [rotated]) simp
  then show ?thesis by (rule successively_if_sorted_wrt)
next
  case False
  then have pos: "0 < vp" by simp
  have "sorted_wrt (\<lambda>a b. a \<noteq> b) ys"
    using ys pos by (elim sorted_wrt_mono_rel [rotated]) (auto simp: apart_def)
  then have dy: "distinct ys" by (rule distinct_of_neq)
  have dz: "distinct zs"
    unfolding distinct_count_atmost_1
  proof (intro allI)
    fix a
    have "count (mset zs) a \<le> count (mset ys) a" using sub by (rule mset_subset_eq_count)
    also have "\<dots> \<le> 1" using dy by (simp add: distinct_count_atmost_1)
    finally have le: "count (mset zs) a \<le> 1" .
    show "count (mset zs) a = (if a \<in> set zs then 1 else 0)"
    proof (cases "a \<in> set zs")
      case True
      then have "0 < count (mset zs) a" by (simp add: count_greater_zero_iff)
      with le have "count (mset zs) a = 1" by linarith
      with True show ?thesis by simp
    next
      case False
      then show ?thesis by (simp add: count_eq_zero_iff)
    qed
  qed
  have setz: "set zs \<subseteq> set ys" using sub by (metis set_mset_mono set_mset_mset)
  have pair: "vp \<le> b - a" if "a \<in> set ys" "b \<in> set ys" "a < b" for a b
  proof -
    from that obtain i j where ij: "i < length ys" "j < length ys" "ys ! i = a" "ys ! j = b"
      by (meson in_set_conv_nth)
    with that(3) have "i \<noteq> j" by auto
    then consider "i < j" | "j < i" by linarith
    then show ?thesis
    proof cases
      case 1
      with ys ij show ?thesis by (auto simp: sorted_wrt_iff_nth_less apart_def)
    next
      case 2
      with ys ij have "apart vp b a" by (auto simp: sorted_wrt_iff_nth_less)
      with that(3) show ?thesis by (simp add: apart_def)
    qed
  qed
  have "sorted_wrt (<) zs" using zs dz by (simp add: strict_sorted_iff)
  then have "sorted_wrt (\<lambda>a b. vp \<le> b - a) zs"
    using setz pair by (elim sorted_wrt_mono_rel [rotated]) blast
  then show ?thesis by (rule successively_if_sorted_wrt)
qed

text \<open>
  Claim C3. For every input of \<^verbatim>\<open>_pitch_clean\<close> (centers, pitches and the two polygon
  lists) and every track index: the final survivors whose nearest x-track has that index,
  taken in ascending vertical order, are consecutively at least \<open>vpy\<close> apart; and the
  final survivors whose nearest y-track has that index (the groups the row pass forms
  from the column-cleaned points), taken in ascending horizontal order, are consecutively
  at least \<open>vpx\<close> apart.
\<close>

theorem pitch_enforced:
  "successively (\<lambda>a b. vpy \<le> b - a)
     (sort (map snd (filter (\<lambda>c. col_of (x_tracks_of pm2) c = k)
                       (pitch_clean cs vpx vpy pm1 pm2)))) \<and>
   successively (\<lambda>a b. vpx \<le> b - a)
     (sort (map fst (filter (\<lambda>c. row_of (y_tracks_of pm1) c = j)
                       (pitch_clean cs vpx vpy pm1 pm2))))"
proof (cases "cs = []")
  case True
  then show ?thesis by (simp add: pitch_clean_def)
next
  case False
  let ?col = "col_of (x_tracks_of pm2)" and ?row = "row_of (y_tracks_of pm1)"
  let ?kept = "clean_pass ?col snd vpy cs"
  let ?fin = "clean_pass ?row fst vpx ?kept"
  have fin: "pitch_clean cs vpx vpy pm1 pm2 = ?fin"
    using False by (simp add: pitch_clean_def column_clean_def)
  have row: "successively (\<lambda>a b. vpx \<le> b - a) (sort (map fst (filter (\<lambda>c. ?row c = j) ?fin)))"
  proof -
    have a: "sorted_wrt (apart vpx) (map fst (filter (\<lambda>c. ?row c = j) ?fin))"
      by (rule clean_pass_track_apart)
    then have "sort (map fst (filter (\<lambda>c. ?row c = j) ?fin)) = map fst (filter (\<lambda>c. ?row c = j) ?fin)"
      by (intro sorted_sort_id sorted_of_apart)
    with gaps_of_apart [OF a] show ?thesis by simp
  qed
  have col: "successively (\<lambda>a b. vpy \<le> b - a) (sort (map snd (filter (\<lambda>c. ?col c = k) ?fin)))"
  proof (rule sub_mset_apart)
    show "sorted_wrt (apart vpy) (map snd (filter (\<lambda>c. ?col c = k) ?kept))"
      by (rule clean_pass_track_apart)
    have "mset ?fin \<subseteq># mset ?kept" by (rule mset_clean_pass)
    then have "filter_mset (\<lambda>c. ?col c = k) (mset ?fin) \<subseteq># filter_mset (\<lambda>c. ?col c = k) (mset ?kept)"
      by (rule multiset_filter_mono)
    then have "image_mset snd (filter_mset (\<lambda>c. ?col c = k) (mset ?fin))
               \<subseteq># image_mset snd (filter_mset (\<lambda>c. ?col c = k) (mset ?kept))"
      by (rule image_mset_subseteq_mono)
    then show "mset (sort (map snd (filter (\<lambda>c. ?col c = k) ?fin)))
               \<subseteq># mset (map snd (filter (\<lambda>c. ?col c = k) ?kept))"
      by simp
    show "sorted (sort (map snd (filter (\<lambda>c. ?col c = k) ?fin)))" by simp
  qed
  from row col fin show ?thesis by simp
qed

subsection \<open>Via candidate engine: collapsed rectangles\<close>

lemma assist_h_append:
  "assist_polys_horizontal (xs @ ys) ex = assist_polys_horizontal xs ex @ assist_polys_horizontal ys ex"
  by (induction xs) (auto split: prod.splits option.splits)

lemma assist_v_append:
  "assist_polys_vertical (xs @ ys) ey = assist_polys_vertical xs ey @ assist_polys_vertical ys ey"
  by (induction xs) (auto split: prod.splits option.splits)

lemma assist_h_collapsed: "collapses_h p ex \<Longrightarrow> assist_polys_horizontal [p] ex = []"
  by (auto simp: collapses_h_def split: prod.splits)

lemma assist_v_collapsed: "collapses_v p ey \<Longrightarrow> assist_polys_vertical [p] ey = []"
  by (auto simp: collapses_v_def split: prod.splits)

lemma get_layer_polys_append:
  "get_layer_polys (xs @ ys) l d = get_layer_polys xs l d @ get_layer_polys ys l d"
  by (simp add: get_layer_polys_def)

lemma assist_h_drop:
  assumes "collapses_h (pts q) ex"
  shows "assist_polys_horizontal (get_layer_polys (pre @ q # post) l d) ex =
         assist_polys_horizontal (get_layer_polys (pre @ post) l d) ex"
proof -
  have "assist_polys_horizontal (get_layer_polys [q] l d) ex = []"
    using assist_h_collapsed [OF assms] by (simp add: get_layer_polys_def)
  then show ?thesis
    using get_layer_polys_append [of pre "[q] @ post" l d] get_layer_polys_append [of "[q]" post l d]
    by (simp add: assist_h_append get_layer_polys_append)
qed

lemma assist_v_drop:
  assumes "collapses_v (pts q) ey"
  shows "assist_polys_vertical (get_layer_polys (pre @ q # post) l d) ey =
         assist_polys_vertical (get_layer_polys (pre @ post) l d) ey"
proof -
  have "assist_polys_vertical (get_layer_polys [q] l d) ey = []"
    using assist_v_collapsed [OF assms] by (simp add: get_layer_polys_def)
  then show ?thesis
    using get_layer_polys_append [of pre "[q] @ post" l d] get_layer_polys_append [of "[q]" post l d]
    by (simp add: assist_v_append get_layer_polys_append)
qed

lemma get_layer_polys_other:
  "p_layer q \<noteq> l \<Longrightarrow> get_layer_polys (pre @ q # post) l d = get_layer_polys (pre @ post) l d"
  by (simp add: get_layer_polys_def)

text \<open>
  Claim C7. A polygon of the m1 layer that the horizontal shrink by \<open>ex\<close> collapses adds
  nothing to the m1 assist set, and a cell with it has the same via candidates as the
  cell without it; likewise a polygon of the m2 layer that the vertical shrink by \<open>ey\<close>
  collapses. (The two layers are different, so the polygon is in one assist set only.)
\<close>

theorem collapsed_rect_contributes_nothing:
  assumes "m1 \<noteq> m2"
  shows "(p_layer q = m1 \<and> collapses_h (pts q) ex \<longrightarrow>
            assist_polys_horizontal [pts q] ex = [] \<and>
            assist_polys_horizontal (get_layer_polys (pre @ q # post) m1 0) ex =
              assist_polys_horizontal (get_layer_polys (pre @ post) m1 0) ex \<and>
            calc_candidates kern (pre @ q # post) m1 m2 ex ey =
              calc_candidates kern (pre @ post) m1 m2 ex ey) \<and>
         (p_layer q = m2 \<and> collapses_v (pts q) ey \<longrightarrow>
            assist_polys_vertical [pts q] ey = [] \<and>
            assist_polys_vertical (get_layer_polys (pre @ q # post) m2 0) ey =
              assist_polys_vertical (get_layer_polys (pre @ post) m2 0) ey \<and>
            calc_candidates kern (pre @ q # post) m1 m2 ex ey =
              calc_candidates kern (pre @ post) m1 m2 ex ey)"
proof (intro conjI impI)
  assume a: "p_layer q = m1 \<and> collapses_h (pts q) ex"
  then show "assist_polys_horizontal [pts q] ex = []" using assist_h_collapsed by blast
  from a show h: "assist_polys_horizontal (get_layer_polys (pre @ q # post) m1 0) ex =
              assist_polys_horizontal (get_layer_polys (pre @ post) m1 0) ex"
    by (simp add: assist_h_drop)
  from a assms have "get_layer_polys (pre @ q # post) m2 0 = get_layer_polys (pre @ post) m2 0"
    by (intro get_layer_polys_other) simp
  with h show "calc_candidates kern (pre @ q # post) m1 m2 ex ey =
              calc_candidates kern (pre @ post) m1 m2 ex ey"
    by (simp add: calc_candidates_def)
next
  assume a: "p_layer q = m2 \<and> collapses_v (pts q) ey"
  then show "assist_polys_vertical [pts q] ey = []" using assist_v_collapsed by blast
  from a show h: "assist_polys_vertical (get_layer_polys (pre @ q # post) m2 0) ey =
              assist_polys_vertical (get_layer_polys (pre @ post) m2 0) ey"
    by (simp add: assist_v_drop)
  from a assms have "get_layer_polys (pre @ q # post) m1 0 = get_layer_polys (pre @ post) m1 0"
    by (intro get_layer_polys_other) simp
  with h show "calc_candidates kern (pre @ q # post) m1 m2 ex ey =
              calc_candidates kern (pre @ post) m1 m2 ex ey"
    by (simp add: calc_candidates_def)
qed

lemma bbox_of_rect:
  "a \<le> c \<Longrightarrow> b \<le> d \<Longrightarrow> bbox_of (rect_verts (a, b) (c, d)) = (a, b, c, d)"
  by (simp add: rect_verts_def min_def max_def)

lemma strap_30_collapses: "collapses_h (pts strap_30) 15"
  by (simp add: collapses_h_def strap_30_def pts_Rectangle bbox_of_rect)

theorem collapsed_rect_contributes_nothing_witness:
  "(110::int) \<noteq> 111 \<and> p_layer strap_30 = 110 \<and> collapses_h (pts strap_30) 15 \<and>
   assist_polys_horizontal [pts strap_30] 15 = [] \<and>
   calc_candidates rect_kernel ([] @ strap_30 # [track_10]) 110 111 15 1 =
     calc_candidates rect_kernel ([] @ [track_10]) 110 111 15 1 \<and>
   calc_candidates rect_kernel [strap_30, track_10] 110 111 15 1 = [] \<and>
   calc_candidates rect_kernel [strap_30, track_10] 110 111 1 1 = [(1, 1, 10, 10)]"
proof -
  have l: "p_layer strap_30 = 110" by (simp add: strap_30_def Rectangle_def)
  have n: "(110::int) \<noteq> 111" by simp
  from collapsed_rect_contributes_nothing [OF n, of strap_30 15 "[]" "[track_10]" rect_kernel 1]
    l strap_30_collapses
  have a: "assist_polys_horizontal [pts strap_30] 15 = []"
    and b: "calc_candidates rect_kernel ([] @ strap_30 # [track_10]) 110 111 15 1 =
     calc_candidates rect_kernel ([] @ [track_10]) 110 111 15 1"
    by blast+
  have c: "calc_candidates rect_kernel [strap_30, track_10] 110 111 15 1 = []"
    by (simp add: calc_candidates_def get_layer_polys_def strap_30_def track_10_def Rectangle_def
        rect_verts_def)
  have d: "calc_candidates rect_kernel [strap_30, track_10] 110 111 1 1 = [(1, 1, 10, 10)]"
    by (simp add: calc_candidates_def get_layer_polys_def strap_30_def track_10_def Rectangle_def
        rect_verts_def rect_kernel_def inter_rect_def)
  from n l strap_30_collapses a b c d show ?thesis by blast
qed

subsection \<open>Via sampler\<close>

lemma sample_step:
  "sample_centers_from_bboxes (b # bs) vx vy g d =
     (if size_ok vx vy b then
        (if stream g (pos g) < d
         then (center_of b # fst (sample_centers_from_bboxes bs vx vy (g\<lparr>pos := Suc (pos g)\<rparr>) d),
               snd (sample_centers_from_bboxes bs vx vy (g\<lparr>pos := Suc (pos g)\<rparr>) d))
         else sample_centers_from_bboxes bs vx vy (g\<lparr>pos := Suc (pos g)\<rparr>) d)
      else sample_centers_from_bboxes bs vx vy g d)"
  by (cases b) (auto simp: size_ok_def center_of_def rng_random_def split: prod.splits)

lemma sample_member:
  "c \<in> set (fst (sample_centers_from_bboxes bs vx vy g d)) \<Longrightarrow>
   \<exists>j < length bs. size_ok vx vy (bs ! j) \<and> c = center_of (bs ! j) \<and>
       stream g (pos g + length (filter (size_ok vx vy) (take j bs))) < d"
proof (induction bs arbitrary: g)
  case Nil
  then show ?case by simp
next
  case (Cons b bs)
  show ?case
  proof (cases "size_ok vx vy b")
    case False
    with Cons.prems have "c \<in> set (fst (sample_centers_from_bboxes bs vx vy g d))"
      by (simp add: sample_step)
    from Cons.IH [OF this] obtain j where "j < length bs" "size_ok vx vy (bs ! j)"
      "c = center_of (bs ! j)" "stream g (pos g + length (filter (size_ok vx vy) (take j bs))) < d"
      by blast
    with False show ?thesis by (intro exI [of _ "Suc j"]) simp
  next
    case True
    let ?g = "g\<lparr>pos := Suc (pos g)\<rparr>"
    show ?thesis
    proof (cases "stream g (pos g) < d \<and> c = center_of b")
      case hit: True
      with True show ?thesis by (intro exI [of _ 0]) simp
    next
      case False
      with True Cons.prems have "c \<in> set (fst (sample_centers_from_bboxes bs vx vy ?g d))"
        by (auto simp: sample_step split: if_splits)
      from Cons.IH [OF this] obtain j where "j < length bs" "size_ok vx vy (bs ! j)"
        "c = center_of (bs ! j)" "stream ?g (pos ?g + length (filter (size_ok vx vy) (take j bs))) < d"
        by blast
      with True show ?thesis by (intro exI [of _ "Suc j"]) simp
    qed
  qed
qed

lemma sample_none:
  "rng_ok g \<Longrightarrow> d \<le> 0 \<Longrightarrow> fst (sample_centers_from_bboxes bs vx vy g d) = []"
proof (induction bs arbitrary: g)
  case Nil
  then show ?case by simp
next
  case (Cons b bs)
  have "\<not> stream g (pos g) < d" using Cons.prems by (auto simp: rng_ok_def not_less intro: order_trans)
  moreover have "rng_ok (g\<lparr>pos := Suc (pos g)\<rparr>)" using Cons.prems(1) by (simp add: rng_ok_def)
  ultimately show ?case using Cons by (simp add: sample_step)
qed

lemma sample_all:
  "rng_ok g \<Longrightarrow> 1 \<le> d \<Longrightarrow>
   fst (sample_centers_from_bboxes bs vx vy g d) = map center_of (filter (size_ok vx vy) bs)"
proof (induction bs arbitrary: g)
  case Nil
  then show ?case by simp
next
  case (Cons b bs)
  have "stream g (pos g) < d" using Cons.prems by (auto simp: rng_ok_def intro: less_le_trans)
  moreover have "rng_ok (g\<lparr>pos := Suc (pos g)\<rparr>)" using Cons.prems(1) by (simp add: rng_ok_def)
  ultimately show ?case using Cons by (simp add: sample_step)
qed

subsection \<open>Via generation\<close>

lemma via_rng_ok: "env_ok env \<Longrightarrow> rng_ok (via_rng env spec)"
  by (simp add: env_ok_def rng_ok_def via_rng_def)

lemma generate_vias_run:
  "generate_vias_from_metals env kern ((name, ps) # rest) spec m1 m2 =
     (if via_seed spec < 0 then Inl ValueError
      else Inr (map (via_rect spec)
                  (pitch_clean (sampled_centers kern ps spec m1 m2 (via_rng env spec))
                     (via_pitch_x spec) (via_pitch_y spec)
                     (get_layer_polys ps m1 0) (get_layer_polys ps m2 0)),
                (name, ps @ map (via_rect spec)
                  (pitch_clean (sampled_centers kern ps spec m1 m2 (via_rng env spec))
                     (via_pitch_x spec) (via_pitch_y spec)
                     (get_layer_polys ps m1 0) (get_layer_polys ps m2 0))) # rest))"
  by (simp add: generate_vias_from_metals_def default_rng_def via_rng_def Let_def)

lemma set_pitch_clean: "set (pitch_clean cs vpx vpy pm1 pm2) \<subseteq> set cs"
  using mset_pitch_clean [of cs vpx vpy pm1 pm2] by (metis set_mset_mono set_mset_mset)

text \<open>
  Claim C10. The pitch cleaner returns a subset of its input centers. Hence every via
  that \<^verbatim>\<open>generate_vias_from_metals\<close> emits is the via rectangle of the midpoint of a
  candidate box: the \<open>j\<close>-th candidate, which passes the size filter and whose draw (the
  generator's double number \<open>k\<close>, where \<open>k\<close> candidates before it passed the size filter)
  is below the density; the via's corners are symmetric about that midpoint.
\<close>

theorem vias_centered_on_candidates:
  "set (pitch_clean cs vpx vpy pm1 pm2) \<subseteq> set cs \<and>
   (generate_vias_from_metals env kern ((name, ps) # rest) spec m1 m2 = Inr (vias, lb') \<and>
    v \<in> set vias \<longrightarrow>
      (\<exists>j < length (calc_candidates kern ps m1 m2 (enclosure_x spec) (enclosure_y spec)).
         let cands = calc_candidates kern ps m1 m2 (enclosure_x spec) (enclosure_y spec);
             b = cands ! j
         in size_ok (via_x spec) (via_y spec) b \<and>
            seeded env (via_seed spec)
              (length (filter (size_ok (via_x spec) (via_y spec)) (take j cands))) < density spec \<and>
            v = via_rect spec (center_of b) \<and>
            fst (rect_p1 v) + fst (rect_p2 v) = 2 * fst (center_of b) \<and>
            snd (rect_p1 v) + snd (rect_p2 v) = 2 * snd (center_of b)))"
proof (intro conjI impI)
  show "set (pitch_clean cs vpx vpy pm1 pm2) \<subseteq> set cs" by (rule set_pitch_clean)
next
  let ?cands = "calc_candidates kern ps m1 m2 (enclosure_x spec) (enclosure_y spec)"
  let ?cs = "sampled_centers kern ps spec m1 m2 (via_rng env spec)"
  assume run: "generate_vias_from_metals env kern ((name, ps) # rest) spec m1 m2 = Inr (vias, lb') \<and>
    v \<in> set vias"
  then have "vias = map (via_rect spec)
      (pitch_clean ?cs (via_pitch_x spec) (via_pitch_y spec)
         (get_layer_polys ps m1 0) (get_layer_polys ps m2 0))"
    by (simp add: generate_vias_run split: if_splits)
  with run obtain c where c: "v = via_rect spec c"
    "c \<in> set (pitch_clean ?cs (via_pitch_x spec) (via_pitch_y spec)
         (get_layer_polys ps m1 0) (get_layer_polys ps m2 0))" by auto
  then have "c \<in> set ?cs" using set_pitch_clean by blast
  then have "c \<in> set (fst (sample_centers_from_bboxes ?cands (via_x spec) (via_y spec)
                              (via_rng env spec) (density spec)))"
    by (simp add: sampled_centers_def)
  from sample_member [OF this]
  obtain j where j: "j < length ?cands" "size_ok (via_x spec) (via_y spec) (?cands ! j)"
    "c = center_of (?cands ! j)"
    "seeded env (via_seed spec)
       (length (filter (size_ok (via_x spec) (via_y spec)) (take j ?cands))) < density spec"
    by (auto simp: via_rng_def)
  have "fst (rect_p1 v) + fst (rect_p2 v) = 2 * fst c" "snd (rect_p1 v) + snd (rect_p2 v) = 2 * snd c"
    using c(1) by (simp_all add: via_rect_def)
  with j c(1) show "\<exists>j < length ?cands.
            let cands = ?cands; b = cands ! j
            in size_ok (via_x spec) (via_y spec) b \<and>
               seeded env (via_seed spec)
                 (length (filter (size_ok (via_x spec) (via_y spec)) (take j cands))) < density spec \<and>
               v = via_rect spec (center_of b) \<and>
               fst (rect_p1 v) + fst (rect_p2 v) = 2 * fst (center_of b) \<and>
               snd (rect_p1 v) + snd (rect_p2 v) = 2 * snd (center_of b)"
    by (intro exI [of _ j]) (simp add: Let_def)
qed

text \<open>
  Claim C8. On a library with a cell and with an accepted seed,
  \<^verbatim>\<open>generate_vias_from_metals\<close> returns its vias, appended to the first cell. With
  \<open>density = 0\<close> there is none. With \<open>density = 1\<close>, when the pitch cleaner drops none of
  the sampled centers, the vias are exactly the via rectangles of the candidates that
  pass the size filter, one each.
\<close>

theorem density_extremes:
  assumes "env_ok env" "0 \<le> via_seed spec"
  shows "\<exists>vias. generate_vias_from_metals env kern ((name, ps) # rest) spec m1 m2 =
                  Inr (vias, (name, ps @ vias) # rest) \<and>
           (density spec = 0 \<longrightarrow> vias = []) \<and>
           (density spec = 1 \<and>
            length (pitch_clean (sampled_centers kern ps spec m1 m2 (via_rng env spec))
                      (via_pitch_x spec) (via_pitch_y spec)
                      (get_layer_polys ps m1 0) (get_layer_polys ps m2 0)) =
            length (sampled_centers kern ps spec m1 m2 (via_rng env spec)) \<longrightarrow>
              mset vias =
              mset (map (\<lambda>b. via_rect spec (center_of b))
                     (filter (size_ok (via_x spec) (via_y spec))
                        (calc_candidates kern ps m1 m2 (enclosure_x spec) (enclosure_y spec)))))"
proof -
  let ?cands = "calc_candidates kern ps m1 m2 (enclosure_x spec) (enclosure_y spec)"
  let ?cs = "sampled_centers kern ps spec m1 m2 (via_rng env spec)"
  let ?cl = "pitch_clean ?cs (via_pitch_x spec) (via_pitch_y spec)
               (get_layer_polys ps m1 0) (get_layer_polys ps m2 0)"
  let ?vias = "map (via_rect spec) ?cl"
  note ok = via_rng_ok [OF assms(1), of spec]
  have run: "generate_vias_from_metals env kern ((name, ps) # rest) spec m1 m2 =
                  Inr (?vias, (name, ps @ ?vias) # rest)"
    using assms(2) by (simp add: generate_vias_run)
  have zero: "?vias = []" if "density spec = 0"
  proof -
    have "?cs = []" using that sample_none [OF ok, of "density spec"] by (simp add: sampled_centers_def)
    then show ?thesis by (simp add: pitch_clean_def)
  qed
  have one: "mset ?vias = mset (map (\<lambda>b. via_rect spec (center_of b))
                     (filter (size_ok (via_x spec) (via_y spec)) ?cands))"
    if "density spec = 1" "length ?cl = length ?cs"
  proof -
    have cs: "?cs = map center_of (filter (size_ok (via_x spec) (via_y spec)) ?cands)"
      using that(1) sample_all [OF ok, of "density spec"] by (simp add: sampled_centers_def)
    have "mset ?cl \<subseteq># mset ?cs" by (rule mset_pitch_clean)
    moreover have "size (mset ?cl) = size (mset ?cs)" using that(2) by simp
    ultimately have "mset ?cl = mset ?cs"
      by (metis mset_subset_size subset_mset.less_le less_irrefl)
    then have "mset ?vias = image_mset (via_rect spec) (mset ?cs)" by (metis mset_map)
    also have "\<dots> = mset (map (\<lambda>b. via_rect spec (center_of b))
                     (filter (size_ok (via_x spec) (via_y spec)) ?cands))"
      unfolding cs by (simp add: multiset.map_comp comp_def)
    finally show ?thesis .
  qed
  from run zero one show ?thesis by blast
qed

lemma cands_small:
  "calc_candidates rect_kernel cell_small 110 111 1 1 =
     [(1, 1, 10, 10), (20, 1, 29, 10), (1, 46, 10, 50), (20, 46, 29, 50)]"
  by (simp add: calc_candidates_def get_layer_polys_def cell_small_def Rectangle_def
        rect_verts_def rect_kernel_def inter_rect_def)

lemma centers_small:
  "sampled_centers rect_kernel cell_small via_small 110 111 (via_rng env_half via_small) =
     [(11 / 2, 11 / 2), (49 / 2, 11 / 2), (11 / 2, 48), (49 / 2, 48)]"
proof -
  have e: "enclosure_x via_small = 1" "enclosure_y via_small = 1" by (simp_all add: via_small_def)
  show ?thesis
    unfolding sampled_centers_def e cands_small
    by (simp add: via_small_def via_rng_def env_half_def rng_random_def)
qed

lemma tracks_small:
  "x_tracks_of (get_layer_polys cell_small 111 0) = [5, 25]"
  "y_tracks_of (get_layer_polys cell_small 110 0) = [5, 45, 85]"
  by (simp_all add: x_tracks_of_def y_tracks_of_def get_layer_polys_def cell_small_def
      Rectangle_def rect_verts_def unique_positions_def)

lemma nearest_small:
  "nearest_idx (11 / 2) [5, 25] = 0" "nearest_idx (49 / 2) [5, 25] = 1"
  "nearest_idx (11 / 2) [5, 45, 85] = 0" "nearest_idx 48 [5, 45, 85] = 1"
  by (simp_all add: nearest_idx_def upt_rec)

lemma clean_small:
  "pitch_clean [(11 / 2, 11 / 2), (49 / 2, 11 / 2), (11 / 2, 48), (49 / 2, 48)] 5 5
     (get_layer_polys cell_small 110 0) (get_layer_polys cell_small 111 0) =
   [(11 / 2, 11 / 2), (49 / 2, 11 / 2), (11 / 2, 48), (49 / 2, 48)]"
  unfolding pitch_clean_def column_clean_def tracks_small
  by (simp add: clean_pass_def group_points_def col_of_def row_of_def nearest_small)

lemma vias_small_run:
  "generate_vias_from_metals env_half rect_kernel [(''metal_cell'', cell_small)] via_small 110 111 =
     Inr (vias_small, [(''metal_cell'', cell_small @ vias_small)])"
proof -
  have p: "via_pitch_x via_small = 5" "via_pitch_y via_small = 5" "\<not> via_seed via_small < 0"
    by (simp_all add: via_small_def)
  have v: "map (via_rect via_small) [(11 / 2, 11 / 2), (49 / 2, 11 / 2), (11 / 2, 48), (49 / 2, 48)]
           = vias_small"
    by (simp add: via_rect_def via_small_def vias_small_def)
  show ?thesis
    unfolding generate_vias_run centers_small p(1,2) clean_small v by (simp add: p(3))
qed

theorem vias_centered_on_candidates_witness:
  "generate_vias_from_metals env_half rect_kernel [(''metal_cell'', cell_small)] via_small 110 111 =
     Inr (vias_small, [(''metal_cell'', cell_small @ vias_small)]) \<and>
   Rectangle (45 / 2, 46) (53 / 2, 50) 112 0 \<in> set vias_small \<and>
   set (pitch_clean [(5, 5), (5, 8), (5, 11), (5, 14)] 1 5 [] []) \<subseteq> set [(5, 5), (5, 8), (5, 11), (5, 14)] \<and>
   pitch_clean [(5, 5), (5, 8), (5, 11), (5, 14)] 1 5 [] [] = [(5, 5)] \<and>
   (\<exists>j < length (calc_candidates rect_kernel cell_small 110 111 1 1).
      size_ok 4 4 (calc_candidates rect_kernel cell_small 110 111 1 1 ! j) \<and>
      Rectangle (45 / 2, 46) (53 / 2, 50) 112 0 =
        via_rect via_small (center_of (calc_candidates rect_kernel cell_small 110 111 1 1 ! j)))"
proof -
  have m: "Rectangle (45 / 2, 46) (53 / 2, 50) 112 0 \<in> set vias_small"
    by (simp add: vias_small_def)
  have e: "enclosure_x via_small = 1" "enclosure_y via_small = 1" "via_x via_small = 4"
    "via_y via_small = 4" by (simp_all add: via_small_def)
  have c: "pitch_clean [(5, 5), (5, 8), (5, 11), (5, 14)] 1 5 [] [] = [(5, 5)]"
    by (simp add: pitch_clean_def column_clean_def clean_pass_def group_points_def col_of_def
        row_of_def nearest_idx_def x_tracks_of_def y_tracks_of_def unique_positions_def)
  from vias_centered_on_candidates [of "[(5, 5), (5, 8), (5, 11), (5, 14)]" 1 5 "[]" "[]"
      env_half rect_kernel "''metal_cell''" cell_small "[]" via_small 110 111 vias_small
      "[(''metal_cell'', cell_small @ vias_small)]" "Rectangle (45 / 2, 46) (53 / 2, 50) 112 0"]
    vias_small_run m
  have "set (pitch_clean [(5, 5), (5, 8), (5, 11), (5, 14)] 1 5 [] []) \<subseteq> set [(5, 5), (5, 8), (5, 11), (5, 14)]"
    and "\<exists>j < length (calc_candidates rect_kernel cell_small 110 111 1 1).
      size_ok 4 4 (calc_candidates rect_kernel cell_small 110 111 1 1 ! j) \<and>
      Rectangle (45 / 2, 46) (53 / 2, 50) 112 0 =
        via_rect via_small (center_of (calc_candidates rect_kernel cell_small 110 111 1 1 ! j))"
    unfolding e Let_def by blast+
  with vias_small_run m c show ?thesis by blast
qed

theorem density_extremes_witness:
  "env_ok env_half \<and> 0 \<le> via_seed via_small \<and> 0 \<le> via_seed via_zero \<and>
   density via_zero = 0 \<and>
   generate_vias_from_metals env_half rect_kernel [(''metal_cell'', cell_small)] via_zero 110 111 =
     Inr ([], [(''metal_cell'', cell_small @ [])]) \<and>
   density via_small = 1 \<and>
   length (pitch_clean (sampled_centers rect_kernel cell_small via_small 110 111
                          (via_rng env_half via_small))
             (via_pitch_x via_small) (via_pitch_y via_small)
             (get_layer_polys cell_small 110 0) (get_layer_polys cell_small 111 0)) =
   length (sampled_centers rect_kernel cell_small via_small 110 111 (via_rng env_half via_small)) \<and>
   generate_vias_from_metals env_half rect_kernel [(''metal_cell'', cell_small)] via_small 110 111 =
     Inr (vias_small, [(''metal_cell'', cell_small @ vias_small)]) \<and>
   mset vias_small =
     mset (map (\<lambda>b. via_rect via_small (center_of b))
            (filter (size_ok (via_x via_small) (via_y via_small))
               (calc_candidates rect_kernel cell_small 110 111
                  (enclosure_x via_small) (enclosure_y via_small))))"
proof -
  have s: "0 \<le> via_seed via_small" "0 \<le> via_seed via_zero" "density via_zero = 0"
    "density via_small = 1"
    by (simp_all add: via_small_def via_zero_def)
  have p: "via_pitch_x via_small = 5" "via_pitch_y via_small = 5" by (simp_all add: via_small_def)
  have n: "length (pitch_clean (sampled_centers rect_kernel cell_small via_small 110 111
                          (via_rng env_half via_small))
             (via_pitch_x via_small) (via_pitch_y via_small)
             (get_layer_polys cell_small 110 0) (get_layer_polys cell_small 111 0)) =
     length (sampled_centers rect_kernel cell_small via_small 110 111 (via_rng env_half via_small))"
    unfolding centers_small p clean_small by simp
  from density_extremes [OF env_half_ok s(2), of rect_kernel "''metal_cell''" cell_small "[]" 110 111] s(3)
  have z: "generate_vias_from_metals env_half rect_kernel [(''metal_cell'', cell_small)] via_zero 110 111 =
     Inr ([], [(''metal_cell'', cell_small @ [])])" by auto
  from density_extremes [OF env_half_ok s(1), of rect_kernel "''metal_cell''" cell_small "[]" 110 111]
    s(4) n vias_small_run
  have o: "mset vias_small =
     mset (map (\<lambda>b. via_rect via_small (center_of b))
            (filter (size_ok (via_x via_small) (via_y via_small))
               (calc_candidates rect_kernel cell_small 110 111
                  (enclosure_x via_small) (enclosure_y via_small))))" by auto
  from env_half_ok s n z o vias_small_run show ?thesis by blast
qed

subsection \<open>Malformed specs are not rejected\<close>

lemma track_loop_short:
  assumes "max_length spec < min_length spec"
  shows "track_loop spec x_base 0 ps g = Some (Inr (ps, g))"
proof -
  have "min (max_length spec) (total_y spec - 0) < min_length spec" using assms by simp
  then show ?thesis by (subst track_loop.simps) simp
qed

lemma column_loop_idle:
  assumes idle: "\<And>x ps g. draw_one_track_vertical ps x spec g = Some (Inr (ps, g))"
    and p: "0 < track_pitch spec"
  shows "column_loop spec x ps g = Some (Inr (ps, g))"
proof (induction "nat (\<lfloor>(total_x spec - wire_cd spec - x) / track_pitch spec\<rfloor> + 1)"
         arbitrary: x rule: less_induct)
  case less
  let ?p = "track_pitch spec"
  show ?case
  proof (cases "x + wire_cd spec \<le> total_x spec")
    case False
    then show ?thesis by (subst column_loop.simps) simp
  next
    case True
    have "nat (\<lfloor>(total_x spec - wire_cd spec - (x + ?p)) / ?p\<rfloor> + 1)
          < nat (\<lfloor>(total_x spec - wire_cd spec - x) / ?p\<rfloor> + 1)"
    proof -
      have "(total_x spec - wire_cd spec - (x + ?p)) / ?p = (total_x spec - wire_cd spec - x) / ?p - 1"
        using p by (simp add: diff_divide_distrib add_divide_distrib)
      then have "\<lfloor>(total_x spec - wire_cd spec - (x + ?p)) / ?p\<rfloor>
                 = \<lfloor>(total_x spec - wire_cd spec - x) / ?p\<rfloor> - 1"
        by simp
      moreover have "0 \<le> \<lfloor>(total_x spec - wire_cd spec - x) / ?p\<rfloor>"
        using True p by simp
      ultimately show ?thesis by linarith
    qed
    from less [OF this] have "column_loop spec (x + ?p) ps g = Some (Inr (ps, g))" .
    with True show ?thesis by (subst column_loop.simps) (simp add: idle)
  qed
qed

lemma rand_quantized_is_Inr: "\<exists>v g'. rand_quantized g lo hi grid = Inr (v, g')"
  by (simp add: rand_quantized_cases)

lemma track_loop_Inr:
  assumes "track_loop spec x_base y ps g = Some r"
  shows "\<exists>ps' g'. r = Inr (ps', g')"
proof (rule track_loop.raw_induct
    [where P = "\<lambda>spec x_base y ps g r. \<exists>ps' g'. r = Inr (ps', g')", OF _ assms], goal_cases)
  case (1 f spec x_base y ps g r)
  let ?ty = "total_y spec"
  let ?lhi = "min (max_length spec) (?ty - y)"
  obtain l g1 where l: "rand_quantized g (min_length spec) ?lhi 0 = Inr (l, g1)"
    using rand_quantized_is_Inr by blast
  let ?thi = "min (max_t2t spec) (?ty - (y + l))"
  obtain t g2 where t: "rand_quantized g1 (min_t2t spec) ?thi (t2t_grid spec) = Inr (t, g2)"
    using rand_quantized_is_Inr by blast
  show ?case
  proof (cases "y < ?ty \<and> \<not> ?lhi < min_length spec \<and> \<not> ?ty \<le> y + l \<and> \<not> ?thi < min_t2t spec")
    case True
    then have c: "y < ?ty" "\<not> ?lhi < min_length spec" "\<not> ?ty \<le> y + l" "\<not> ?thi < min_t2t spec"
      by blast+
    note b = 1(2) [simplified c if_True if_False l sum.case prod.case Let_def t]
    from 1(1) [OF b] show ?thesis .
  next
    case False
    then consider "\<not> y < ?ty" | "y < ?ty" "?lhi < min_length spec"
      | "y < ?ty" "\<not> ?lhi < min_length spec" "?ty \<le> y + l"
      | "y < ?ty" "\<not> ?lhi < min_length spec" "\<not> ?ty \<le> y + l" "?thi < min_t2t spec"
      by blast
    then show ?thesis
    proof cases
      case 1
      with \<open>_ = Some r\<close> have "Some (Inr (ps, g)) = Some r" by (simp only: if_False)
      then show ?thesis by auto
    next
      case 2
      with \<open>_ = Some r\<close> have "Some (Inr (ps, g)) = Some r" by (simp only: if_True)
      then show ?thesis by auto
    next
      case 3
      note b = \<open>_ = Some r\<close> [simplified 3 if_True if_False l sum.case prod.case Let_def]
      then show ?thesis by auto
    next
      case 4
      note b = \<open>_ = Some r\<close> [simplified 4 if_True if_False l sum.case prod.case Let_def]
      then show ?thesis by auto
    qed
  qed
qed

lemma column_loop_diverges:
  assumes "column_loop spec x ps g = Some r"
  shows "\<not> (track_pitch spec \<le> 0 \<and> x + wire_cd spec \<le> total_x spec)"
proof (rule column_loop.raw_induct
    [where P = "\<lambda>spec x ps g r. \<not> (track_pitch spec \<le> 0 \<and> x + wire_cd spec \<le> total_x spec)"
       and xa = "(((spec, x), ps), g)" and y = r, unfolded prod.case, OF _ assms], goal_cases)
  case (1 f spec x ps g r)
  show ?case
  proof
    assume a: "track_pitch spec \<le> 0 \<and> x + wire_cd spec \<le> total_x spec"
    with 1(2) have b: "Option.bind (draw_one_track_vertical ps x spec g)
          (\<lambda>r. case r of Inl e \<Rightarrow> Some (Inl e)
               | Inr (ps1, g1) \<Rightarrow> f spec (x + track_pitch spec) ps1 g1) = Some r"
      by (simp only: if_True)
    then obtain r' where d: "draw_one_track_vertical ps x spec g = Some r'"
      by (cases "draw_one_track_vertical ps x spec g") auto
    then obtain ps1 g1 where r': "r' = Inr (ps1, g1)"
      using track_loop_Inr unfolding draw_one_track_vertical_def by blast
    with b d have "f spec (x + track_pitch spec) ps1 g1 = Some r" by simp
    from 1(1) [OF this] a show False by simp
  qed
qed

lemma nonpositive_pitch_never_returns:
  assumes "track_pitch spec \<le> 0" "wire_cd spec \<le> total_x spec" "seed_ok spec"
  shows "draw_metal_cell_vertical env spec = None"
proof -
  from assms(3) obtain g where g: "default_rng env (seed spec) = Inr g"
    by (auto simp: seed_ok_def default_rng_def split: option.splits)
  have "column_loop spec 0 [] g = None"
  proof (cases "column_loop spec 0 [] g")
    case None
    then show ?thesis .
  next
    case (Some r)
    from column_loop_diverges [OF this] assms(1,2) show ?thesis by simp
  qed
  with g show ?thesis by (simp add: draw_metal_cell_vertical_def)
qed

text \<open>
  Claim C2, as the code has it. Neither entry point validates its spec, and there is no
  configuration error. With \<open>max_length < min_length\<close> (a positive track pitch and an
  accepted seed) \<^verbatim>\<open>draw_metal_cell_vertical\<close> returns normally a library whose cell holds
  no rectangle. With a track pitch that is not positive, when the first column fits
  (\<open>wire_cd \<le> total_x\<close>, an accepted seed), it never returns. With a negative density (a
  library with a cell, an accepted seed, a generator that keeps its contract)
  \<^verbatim>\<open>generate_vias_from_metals\<close> returns normally, with no via and the cell unchanged.
\<close>

theorem malformed_spec_not_rejected:
  "(max_length spec < min_length spec \<and> 0 < track_pitch spec \<and> seed_ok spec \<longrightarrow>
      draw_metal_cell_vertical env spec = Some (Inr [(cell_name spec, [])])) \<and>
   (track_pitch spec \<le> 0 \<and> wire_cd spec \<le> total_x spec \<and> seed_ok spec \<longrightarrow>
      draw_metal_cell_vertical env spec = None) \<and>
   (density vspec < 0 \<and> 0 \<le> via_seed vspec \<and> env_ok env \<longrightarrow>
      generate_vias_from_metals env kern ((name, ps) # rest) vspec m1 m2 =
        Inr ([], (name, ps @ []) # rest))"
proof (intro conjI impI)
  assume a: "max_length spec < min_length spec \<and> 0 < track_pitch spec \<and> seed_ok spec"
  then obtain g where g: "default_rng env (seed spec) = Inr g"
    by (auto simp: seed_ok_def default_rng_def split: option.splits)
  have "draw_one_track_vertical ps x spec g = Some (Inr (ps, g))" for ps x g
    using a by (simp add: draw_one_track_vertical_def track_loop_short)
  then have "column_loop spec 0 [] g = Some (Inr ([], g))"
    using a by (intro column_loop_idle) auto
  with g show "draw_metal_cell_vertical env spec = Some (Inr [(cell_name spec, [])])"
    by (simp add: draw_metal_cell_vertical_def)
next
  assume "track_pitch spec \<le> 0 \<and> wire_cd spec \<le> total_x spec \<and> seed_ok spec"
  then show "draw_metal_cell_vertical env spec = None"
    using nonpositive_pitch_never_returns by blast
next
  assume a: "density vspec < 0 \<and> 0 \<le> via_seed vspec \<and> env_ok env"
  then have ok: "rng_ok (via_rng env vspec)" using via_rng_ok by blast
  from sample_none [OF ok, of "density vspec"] a
  have "sampled_centers kern ps vspec m1 m2 (via_rng env vspec) = []"
    by (simp add: sampled_centers_def)
  with a show "generate_vias_from_metals env kern ((name, ps) # rest) vspec m1 m2 =
        Inr ([], (name, ps @ []) # rest)"
    by (simp add: generate_vias_run pitch_clean_def)
qed

theorem malformed_spec_not_rejected_witness:
  "max_length spec_bad < min_length spec_bad \<and> 0 < track_pitch spec_bad \<and> seed_ok spec_bad \<and>
   draw_metal_cell_vertical env_half spec_bad = Some (Inr [(cell_name spec_bad, [])]) \<and>
   track_pitch (spec_small\<lparr>track_pitch := 0\<rparr>) \<le> 0 \<and>
   wire_cd (spec_small\<lparr>track_pitch := 0\<rparr>) \<le> total_x (spec_small\<lparr>track_pitch := 0\<rparr>) \<and>
   seed_ok (spec_small\<lparr>track_pitch := 0\<rparr>) \<and>
   draw_metal_cell_vertical env_half (spec_small\<lparr>track_pitch := 0\<rparr>) = None \<and>
   density (via_small\<lparr>density := - 1\<rparr>) < 0 \<and> 0 \<le> via_seed (via_small\<lparr>density := - 1\<rparr>) \<and>
   env_ok env_half \<and>
   generate_vias_from_metals env_half rect_kernel ((''metal_cell'', cell_small) # [])
       (via_small\<lparr>density := - 1\<rparr>) 110 111 =
     Inr ([], (''metal_cell'', cell_small @ []) # [])"
proof -
  have a: "max_length spec_bad < min_length spec_bad" "0 < track_pitch spec_bad" "seed_ok spec_bad"
    by (simp_all add: spec_bad_def spec_small_def seed_ok_def)
  have b: "density (via_small\<lparr>density := - 1\<rparr>) < 0" "0 \<le> via_seed (via_small\<lparr>density := - 1\<rparr>)"
    by (simp_all add: via_small_def)
  have c: "track_pitch (spec_small\<lparr>track_pitch := 0\<rparr>) \<le> 0"
    "wire_cd (spec_small\<lparr>track_pitch := 0\<rparr>) \<le> total_x (spec_small\<lparr>track_pitch := 0\<rparr>)"
    "seed_ok (spec_small\<lparr>track_pitch := 0\<rparr>)"
    by (simp_all add: spec_small_def seed_ok_def)
  from malformed_spec_not_rejected [of spec_bad env_half "via_small\<lparr>density := - 1\<rparr>"
      rect_kernel "''metal_cell''" cell_small "[]" 110 111] a b env_half_ok
  have d: "draw_metal_cell_vertical env_half spec_bad = Some (Inr [(cell_name spec_bad, [])])"
    "generate_vias_from_metals env_half rect_kernel ((''metal_cell'', cell_small) # [])
       (via_small\<lparr>density := - 1\<rparr>) 110 111 =
     Inr ([], (''metal_cell'', cell_small @ []) # [])"
    by blast+
  from malformed_spec_not_rejected [of "spec_small\<lparr>track_pitch := 0\<rparr>" env_half via_small
      rect_kernel "''metal_cell''" cell_small "[]" 110 111] c
  have e: "draw_metal_cell_vertical env_half (spec_small\<lparr>track_pitch := 0\<rparr>) = None"
    by blast
  from a b c d e env_half_ok show ?thesis by blast
qed

text \<open>The claim as the spec states it fails: the malformed \<open>spec_bad\<close> is not rejected
  with an error, it yields a cell without geometry.\<close>

theorem malformed_spec_counterexample:
  "max_length spec_bad < min_length spec_bad \<and>
   draw_metal_cell_vertical env_half spec_bad = Some (Inr [(''metal_cell'', [])])"
proof -
  have a: "max_length spec_bad < min_length spec_bad" "0 < track_pitch spec_bad" "seed_ok spec_bad"
    "cell_name spec_bad = ''metal_cell''"
    by (simp_all add: spec_bad_def spec_small_def seed_ok_def)
  obtain g where g: "default_rng env_half (seed spec_bad) = Inr g"
    by (simp add: spec_bad_def spec_small_def default_rng_def)
  have "draw_one_track_vertical ps x spec_bad g = Some (Inr (ps, g))" for ps x g
    using a(1) by (simp add: draw_one_track_vertical_def track_loop_short)
  then have "column_loop spec_bad 0 [] g = Some (Inr ([], g))"
    using a(2) by (intro column_loop_idle) auto
  with g a show ?thesis by (simp add: draw_metal_cell_vertical_def)
qed

subsection \<open>Containment: tracks\<close>

lemma track_ok_proper:
  assumes "valid_metal spec" "track_ok spec 0 r"
  shows "proper_rect_in (origin spec) (extent_hi spec) r \<and>
         p_layer r = layer spec \<and> p_datatype r = dtype spec"
proof -
  from assms(2) obtain xb a l where r: "0 \<le> xb" "xb + wire_cd spec \<le> total_x spec"
    "r = Rectangle (fst (origin spec) + xb, snd (origin spec) + a)
                 (fst (origin spec) + xb + wire_cd spec, snd (origin spec) + a + l)
                 (layer spec) (dtype spec)"
    "0 \<le> a" "min_length spec \<le> l" "a + l \<le> total_y spec"
    unfolding track_ok_def seg_ok_def by blast
  have "0 < wire_cd spec" "0 < l" using assms(1) r(5) by (auto simp: valid_metal_def)
  with r show ?thesis
    by (simp add: proper_rect_in_def extent_hi_def pts_Rectangle) (simp add: Rectangle_def)
qed

subsection \<open>Containment: straps\<close>

lemma strap_loop_total:
  assumes "0 < length_x" "0 < width" "0 < pitch"
  shows "0 \<le> y \<Longrightarrow>
         \<exists>straps. strap_loop length_x width pitch ty lyr dt y ps = Some (ps @ straps) \<and>
           list_all (proper_rect_in (0, 0) (length_x, ty)) straps \<and>
           list_all (\<lambda>r. p_layer r = lyr \<and> p_datatype r = dt) straps"
proof (induction "nat (\<lfloor>(ty - width - y) / pitch\<rfloor> + 1)" arbitrary: y ps rule: less_induct)
  case less
  show ?case
  proof (cases "y + width \<le> ty")
    case False
    then have "strap_loop length_x width pitch ty lyr dt y ps = Some (ps @ [])"
      by (subst strap_loop.simps) simp
    then show ?thesis by (intro exI [of _ "[]"]) simp
  next
    case True
    let ?r = "Rectangle (0, y) (length_x, y + width) lyr dt"
    have step: "strap_loop length_x width pitch ty lyr dt y ps =
                strap_loop length_x width pitch ty lyr dt (y + pitch) (ps @ [?r])"
      using True by (subst strap_loop.simps) simp
    have "nat (\<lfloor>(ty - width - (y + pitch)) / pitch\<rfloor> + 1) < nat (\<lfloor>(ty - width - y) / pitch\<rfloor> + 1)"
    proof -
      have "(ty - width - (y + pitch)) / pitch = (ty - width - y) / pitch - 1"
        using assms(3) by (simp add: diff_divide_distrib add_divide_distrib)
      then have "\<lfloor>(ty - width - (y + pitch)) / pitch\<rfloor> = \<lfloor>(ty - width - y) / pitch\<rfloor> - 1"
        by simp
      moreover have "0 \<le> \<lfloor>(ty - width - y) / pitch\<rfloor>" using True assms(3) by simp
      ultimately show ?thesis by linarith
    qed
    moreover have "0 \<le> y + pitch" using less.prems assms(3) by simp
    ultimately obtain straps where s:
      "strap_loop length_x width pitch ty lyr dt (y + pitch) (ps @ [?r]) = Some ((ps @ [?r]) @ straps)"
      "list_all (proper_rect_in (0, 0) (length_x, ty)) straps"
      "list_all (\<lambda>r. p_layer r = lyr \<and> p_datatype r = dt) straps"
      using less.hyps by blast
    have "proper_rect_in (0, 0) (length_x, ty) ?r"
      using True less.prems assms by (simp add: proper_rect_in_def pts_Rectangle)
    moreover have "p_layer ?r = lyr \<and> p_datatype ?r = dt" by (simp add: Rectangle_def)
    ultimately show ?thesis using s step by (intro exI [of _ "?r # straps"]) simp
  qed
qed

subsection \<open>Containment: vias\<close>

lemma verts_in_rect:
  "a \<le> c \<Longrightarrow> b \<le> d \<Longrightarrow>
   verts_in lo hi (rect_verts (a, b) (c, d)) = (fst lo \<le> a \<and> snd lo \<le> b \<and> c \<le> fst hi \<and> d \<le> snd hi)"
  by (simp add: verts_in_def bbox_of_rect)

lemma proper_rect_verts_in: "proper_rect_in lo hi r \<Longrightarrow> verts_in lo hi (pts r)"
proof -
  assume a: "proper_rect_in lo hi r"
  obtain a1 b1 where p1: "rect_p1 r = (a1, b1)" by (cases "rect_p1 r")
  obtain a2 b2 where p2: "rect_p2 r = (a2, b2)" by (cases "rect_p2 r")
  from a p1 p2 have "pts r = rect_verts (a1, b1) (a2, b2)" "a1 \<le> a2" "b1 \<le> b2"
    "fst lo \<le> a1" "snd lo \<le> b1" "a2 \<le> fst hi" "b2 \<le> snd hi"
    by (auto simp: proper_rect_in_def)
  then show ?thesis by (simp add: verts_in_rect)
qed

lemma assist_v_in:
  assumes "0 \<le> ey" "list_all (verts_in lo hi) polys"
  shows "list_all (verts_in lo hi) (assist_polys_vertical polys ey)"
  using assms(2)
proof (induction polys)
  case Nil
  then show ?case by simp
next
  case (Cons p polys)
  obtain x0 y0 x1 y1 where b: "bbox_of p = (x0, y0, x1, y1)" by (cases "bbox_of p") auto
  from Cons.prems b have p: "fst lo \<le> x0" "snd lo \<le> y0" "x1 \<le> fst hi" "y1 \<le> snd hi"
    by (auto simp: verts_in_def)
  from Cons have ih: "list_all (verts_in lo hi) (assist_polys_vertical polys ey)" by simp
  show ?case
  proof (cases "x1 \<le> x0 \<or> y1 - ey \<le> y0 + ey")
    case True
    with b ih show ?thesis by simp
  next
    case False
    then have "verts_in lo hi (rect_verts (x0, y0 + ey) (x1, y1 - ey))"
      using p assms(1) by (simp add: verts_in_rect)
    with False b ih show ?thesis by simp
  qed
qed

lemma assist_h_in:
  assumes "0 \<le> ex" "list_all (verts_in lo hi) polys"
  shows "list_all (verts_in lo hi) (assist_polys_horizontal polys ex)"
  using assms(2)
proof (induction polys)
  case Nil
  then show ?case by simp
next
  case (Cons p polys)
  obtain x0 y0 x1 y1 where b: "bbox_of p = (x0, y0, x1, y1)" by (cases "bbox_of p") auto
  from Cons.prems b have p: "fst lo \<le> x0" "snd lo \<le> y0" "x1 \<le> fst hi" "y1 \<le> snd hi"
    by (auto simp: verts_in_def)
  from Cons have ih: "list_all (verts_in lo hi) (assist_polys_horizontal polys ex)" by simp
  show ?case
  proof (cases "x1 - ex \<le> x0 + ex \<or> y1 \<le> y0")
    case True
    with b ih show ?thesis by simp
  next
    case False
    then have "verts_in lo hi (rect_verts (x0 + ex, y0) (x1 - ex, y1))"
      using p assms(1) by (simp add: verts_in_rect)
    with False b ih show ?thesis by simp
  qed
qed

lemma candidate_in:
  assumes "kernel_ok kern"
    and "0 \<le> ex \<and> list_all (verts_in lo hi) (get_layer_polys ps m1 0) \<or>
         0 \<le> ey \<and> list_all (verts_in lo hi) (get_layer_polys ps m2 0)"
    and "(x0, y0, x1, y1) \<in> set (calc_candidates kern ps m1 m2 ex ey)"
  shows "fst lo \<le> x0 \<and> snd lo \<le> y0 \<and> x1 \<le> fst hi \<and> y1 \<le> snd hi"
proof -
  let ?a1 = "assist_polys_horizontal (get_layer_polys ps m1 0) ex"
  let ?a2 = "assist_polys_vertical (get_layer_polys ps m2 0) ey"
  have ne: "?a1 \<noteq> []" "?a2 \<noteq> []"
    using assms(3) by (auto simp: calc_candidates_def Let_def split: if_splits)
  then have "calc_candidates kern ps m1 m2 ex ey =
      (case kern ?a1 ?a2 of None \<Rightarrow> [] | Some polys \<Rightarrow> map bbox_of polys)"
    by (simp add: calc_candidates_def Let_def)
  with assms(3) obtain polys where k: "kern ?a1 ?a2 = Some polys"
    "(x0, y0, x1, y1) \<in> set (map bbox_of polys)"
    by (cases "kern ?a1 ?a2") auto
  have "list_all (verts_in lo hi) ?a1 \<or> list_all (verts_in lo hi) ?a2"
    using assms(2) assist_h_in assist_v_in by blast
  with assms(1) k(1) have "list_all (verts_in lo hi) polys"
    unfolding kernel_ok_def by blast
  with k(2) show ?thesis by (auto simp: list_all_iff verts_in_def simp del: bbox_of.simps)
qed

lemma via_in_box:
  assumes "kernel_ok kern" "0 < via_x vspec" "0 < via_y vspec"
    and "0 \<le> enclosure_x vspec \<and> list_all (verts_in lo hi) (get_layer_polys ps m1 0) \<or>
         0 \<le> enclosure_y vspec \<and> list_all (verts_in lo hi) (get_layer_polys ps m2 0)"
    and "c \<in> set (sampled_centers kern ps vspec m1 m2 g)"
  shows "proper_rect_in lo hi (via_rect vspec c)"
proof -
  let ?cands = "calc_candidates kern ps m1 m2 (enclosure_x vspec) (enclosure_y vspec)"
  from assms(5) have "c \<in> set (fst (sample_centers_from_bboxes ?cands (via_x vspec) (via_y vspec)
                                      g (density vspec)))"
    by (simp add: sampled_centers_def)
  from sample_member [OF this]
  obtain j where j: "j < length ?cands" "size_ok (via_x vspec) (via_y vspec) (?cands ! j)"
    "c = center_of (?cands ! j)" by blast
  obtain x0 y0 x1 y1 where b: "?cands ! j = (x0, y0, x1, y1)" by (cases "?cands ! j") auto
  with j(1) have "(x0, y0, x1, y1) \<in> set ?cands" by (metis nth_mem)
  from candidate_in [OF assms(1,4) this]
  have box: "fst lo \<le> x0" "snd lo \<le> y0" "x1 \<le> fst hi" "y1 \<le> snd hi" by auto
  from j(2) b have sz: "via_x vspec \<le> x1 - x0" "via_y vspec \<le> y1 - y0"
    by (auto simp: size_ok_def)
  from j(3) b have c: "c = ((x0 + x1) * (1 / 2), (y0 + y1) * (1 / 2))"
    by (simp add: center_of_def)
  show ?thesis
    using box sz assms(2,3) unfolding c via_rect_def proper_rect_in_def
    by (simp add: pts_Rectangle field_simps)
qed

lemma draw_metal1_total:
  assumes "0 < length_x" "0 < width" "0 < pitch"
  shows "\<exists>straps. draw_metal1 [(name, ps)] length_x width pitch ty lyr dt =
                    Some (Inr [(name, ps @ straps)]) \<and>
           list_all (proper_rect_in (0, 0) (length_x, ty)) straps \<and>
           list_all (\<lambda>r. p_layer r = lyr \<and> p_datatype r = dt) straps"
proof -
  from strap_loop_total [OF assms, of 0 ty lyr dt ps]
  obtain straps where "strap_loop length_x width pitch ty lyr dt 0 ps = Some (ps @ straps)"
    "list_all (proper_rect_in (0, 0) (length_x, ty)) straps"
    "list_all (\<lambda>r. p_layer r = lyr \<and> p_datatype r = dt) straps"
    by auto
  then show ?thesis by (intro exI [of _ straps]) (simp add: draw_metal1_def)
qed

lemma layer_polys_tracks_only:
  assumes "list_all (\<lambda>r. p_layer r = lyr \<and> p_datatype r = dt) straps" "\<not> (lyr = l \<and> dt = d)"
  shows "get_layer_polys (tracks @ straps) l d = get_layer_polys tracks l d"
proof -
  have "filter (\<lambda>p. p_layer p = l \<and> p_datatype p = d) straps = []"
    using assms by (auto simp: list_all_iff filter_empty_conv)
  then show ?thesis by (simp add: get_layer_polys_def)
qed

lemma layer_polys_in:
  assumes "list_all (proper_rect_in lo hi) tracks"
  shows "list_all (verts_in lo hi) (get_layer_polys tracks l d)"
  using assms by (auto simp: list_all_iff get_layer_polys_def intro: proper_rect_verts_in)

text \<open>
  Claim C4. The pipeline runs on a spec that satisfies the data-model invariants, with
  an accepted seed and a generator library that keeps its contract; the straps have a
  positive length, width and pitch; the vias have a positive size, non-negative
  enclosures and an accepted seed, and are taken between two different layers; the
  geometry kernel returns intersections inside its operands. Then the pipeline returns,
  and the cell holds the tracks, then the straps, then the vias: every track and every
  via is a rectangle of positive width and height inside
  \<open>[origin, origin + (total_x, total_y)]\<close>, and every strap one inside its extent
  \<open>[(0, 0), (length_x, total_y)]\<close>.
\<close>

theorem pipeline_containment:
  assumes "valid_metal spec" "seed_ok spec" "env_ok env"
    and "0 < length_x" "0 < width" "0 < pitch"
    and "0 < via_x vspec" "0 < via_y vspec" "0 \<le> enclosure_x vspec" "0 \<le> enclosure_y vspec"
    and "0 \<le> via_seed vspec" "kernel_ok kern" "m1 \<noteq> m2"
  shows "\<exists>tracks straps vias.
           pipeline env kern spec length_x width pitch ty lyr dt vspec m1 m2 =
             Some (Inr (vias, [(cell_name spec, tracks @ straps @ vias)])) \<and>
           list_all (proper_rect_in (origin spec) (extent_hi spec)) tracks \<and>
           list_all (proper_rect_in (0, 0) (length_x, ty)) straps \<and>
           list_all (proper_rect_in (origin spec) (extent_hi spec)) vias"
proof -
  from draw_metal_cell_vertical_total [OF assms(1,3,2)]
  obtain tracks where tr: "draw_metal_cell_vertical env spec = Some (Inr [(cell_name spec, tracks)])"
    "list_all (track_ok spec 0) tracks" by blast
  have tp: "list_all (proper_rect_in (origin spec) (extent_hi spec)) tracks"
    using tr(2) track_ok_proper [OF assms(1)] by (auto simp: list_all_iff)
  from draw_metal1_total [OF assms(4,5,6), of "cell_name spec" tracks ty lyr dt]
  obtain straps where st:
    "draw_metal1 [(cell_name spec, tracks)] length_x width pitch ty lyr dt =
       Some (Inr [(cell_name spec, tracks @ straps)])"
    "list_all (proper_rect_in (0, 0) (length_x, ty)) straps"
    "list_all (\<lambda>r. p_layer r = lyr \<and> p_datatype r = dt) straps"
    by blast
  let ?ps = "tracks @ straps"
  let ?cl = "pitch_clean (sampled_centers kern ?ps vspec m1 m2 (via_rng env vspec))
               (via_pitch_x vspec) (via_pitch_y vspec)
               (get_layer_polys ?ps m1 0) (get_layer_polys ?ps m2 0)"
  let ?vias = "map (via_rect vspec) ?cl"
  have gv: "generate_vias_from_metals env kern [(cell_name spec, ?ps)] vspec m1 m2 =
              Inr (?vias, [(cell_name spec, ?ps @ ?vias)])"
    using assms(11) by (simp add: generate_vias_run)
  have one: "list_all (verts_in (origin spec) (extent_hi spec)) (get_layer_polys ?ps m1 0) \<or>
             list_all (verts_in (origin spec) (extent_hi spec)) (get_layer_polys ?ps m2 0)"
  proof (cases "lyr = m2 \<and> dt = 0")
    case True
    with assms(13) have "\<not> (lyr = m1 \<and> dt = 0)" by simp
    from layer_polys_tracks_only [OF st(3) this] layer_polys_in [OF tp]
    show ?thesis by simp
  next
    case False
    from layer_polys_tracks_only [OF st(3) this] layer_polys_in [OF tp]
    show ?thesis by simp
  qed
  have "proper_rect_in (origin spec) (extent_hi spec) (via_rect vspec c)" if "c \<in> set ?cl" for c
  proof -
    from that have "c \<in> set (sampled_centers kern ?ps vspec m1 m2 (via_rng env vspec))"
      using set_pitch_clean by blast
    moreover have "0 \<le> enclosure_x vspec \<and>
        list_all (verts_in (origin spec) (extent_hi spec)) (get_layer_polys ?ps m1 0) \<or>
        0 \<le> enclosure_y vspec \<and>
        list_all (verts_in (origin spec) (extent_hi spec)) (get_layer_polys ?ps m2 0)"
      using one assms(9,10) by blast
    ultimately show ?thesis using via_in_box [OF assms(12,7,8)] by blast
  qed
  then have vp: "list_all (proper_rect_in (origin spec) (extent_hi spec)) ?vias"
    by (simp add: list_all_iff)
  have "pipeline env kern spec length_x width pitch ty lyr dt vspec m1 m2 =
          Some (Inr (?vias, [(cell_name spec, tracks @ straps @ ?vias)]))"
    by (simp add: pipeline_def tr(1) st(1) gv)
  with tp st(2) vp show ?thesis by blast
qed

subsection \<open>The pipeline on the small inputs\<close>

lemma inter_rect_in:
  assumes "p \<in> set (inter_rect a b)" "verts_in lo hi a \<or> verts_in lo hi b"
  shows "verts_in lo hi p"
proof -
  obtain ax0 ay0 ax1 ay1 where a: "bbox_of a = (ax0, ay0, ax1, ay1)" by (cases "bbox_of a") auto
  obtain bx0 by0 bx1 by1 where b: "bbox_of b = (bx0, by0, bx1, by1)" by (cases "bbox_of b") auto
  from assms(1) a b have p: "p = rect_verts (max ax0 bx0, max ay0 by0) (min ax1 bx1, min ay1 by1)"
    "max ax0 bx0 < min ax1 bx1" "max ay0 by0 < min ay1 by1"
    by (auto simp: inter_rect_def split: if_splits)
  have "verts_in lo hi p =
     (fst lo \<le> max ax0 bx0 \<and> snd lo \<le> max ay0 by0 \<and> min ax1 bx1 \<le> fst hi \<and> min ay1 by1 \<le> snd hi)"
    unfolding p(1) using p(2,3) by (intro verts_in_rect) auto
  with assms(2) a b show ?thesis by (auto simp: verts_in_def)
qed

lemma rect_kernel_ok: "kernel_ok rect_kernel"
  unfolding kernel_ok_def
proof (intro allI impI)
  fix as bs ps lo hi
  assume h: "rect_kernel as bs = Some ps \<and>
             (list_all (verts_in lo hi) as \<or> list_all (verts_in lo hi) bs)"
  then have ps: "ps = concat (map (\<lambda>a. concat (map (inter_rect a) bs)) as)"
    by (auto simp: rect_kernel_def split: list.splits)
  show "list_all (verts_in lo hi) ps"
    unfolding list_all_iff
  proof
    fix p assume "p \<in> set ps"
    with ps obtain a b where ab: "a \<in> set as" "b \<in> set bs" "p \<in> set (inter_rect a b)" by auto
    with h have "verts_in lo hi a \<or> verts_in lo hi b" by (auto simp: list_all_iff)
    with ab(3) show "verts_in lo hi p" by (rule inter_rect_in)
  qed
qed

lemma straps_small:
  "draw_metal1 [(''metal_cell'',
       [Rectangle (0, 0) (10, 30) 111 0, Rectangle (0, 45) (10, 75) 111 0,
        Rectangle (20, 0) (30, 30) 111 0, Rectangle (20, 45) (30, 75) 111 0])] 30 10 40 100 110 0 =
     Some (Inr [(''metal_cell'', cell_small)])"
  unfolding draw_metal1_def
  apply (simp only: list.case prod.case)
  apply (subst strap_loop.simps, simp)
  apply (subst strap_loop.simps, simp)
  apply (subst strap_loop.simps, simp)
  apply (subst strap_loop.simps, simp add: cell_small_def)
  done

lemma pipeline_small:
  "pipeline env_half rect_kernel spec_small 30 10 40 100 110 0 via_small 110 111 =
     Some (Inr (vias_small, [(''metal_cell'', cell_small @ vias_small)]))"
  by (simp add: pipeline_def draw_small straps_small vias_small_run)

theorem pipeline_containment_witness:
  "valid_metal spec_small \<and> seed_ok spec_small \<and> env_ok env_half \<and>
   0 < via_x via_small \<and> 0 < via_y via_small \<and> 0 \<le> enclosure_x via_small \<and>
   0 \<le> enclosure_y via_small \<and> 0 \<le> via_seed via_small \<and> kernel_ok rect_kernel \<and>
   (110::int) \<noteq> 111 \<and>
   pipeline env_half rect_kernel spec_small 30 10 40 100 110 0 via_small 110 111 =
     Some (Inr (vias_small, [(''metal_cell'', cell_small @ vias_small)])) \<and>
   list_all (proper_rect_in (origin spec_small) (extent_hi spec_small)) vias_small \<and>
   list_all (proper_rect_in (origin spec_small) (extent_hi spec_small)) (take 4 cell_small) \<and>
   list_all (proper_rect_in (0, 0) (30, 100)) (drop 4 cell_small)"
proof -
  have s: "seed_ok spec_small" "cell_name spec_small = ''metal_cell''"
    by (simp_all add: seed_ok_def spec_small_def)
  have v: "0 < via_x via_small" "0 < via_y via_small" "0 \<le> enclosure_x via_small"
    "0 \<le> enclosure_y via_small" "0 \<le> via_seed via_small" by (simp_all add: via_small_def)
  have n: "(0::real) < 30" "(0::real) < 10" "(0::real) < 40" "(110::int) \<noteq> 111" by simp_all
  from pipeline_containment [OF spec_small_valid s(1) env_half_ok n(1,2,3) v rect_kernel_ok
      n(4), of 100 110 0]
  obtain tracks straps vias where r:
    "pipeline env_half rect_kernel spec_small 30 10 40 100 110 0 via_small 110 111 =
       Some (Inr (vias, [(cell_name spec_small, tracks @ straps @ vias)]))"
    "list_all (proper_rect_in (origin spec_small) (extent_hi spec_small)) tracks"
    "list_all (proper_rect_in (0, 0) (30, 100)) straps"
    "list_all (proper_rect_in (origin spec_small) (extent_hi spec_small)) vias"
    by blast
  from r(1) have e: "vias = vias_small" "tracks @ straps @ vias = cell_small @ vias_small"
    by (simp_all add: pipeline_small)
  have a: "list_all (proper_rect_in (origin spec_small) (extent_hi spec_small)) vias_small"
    using r(4) e(1) by simp
  have b: "list_all (proper_rect_in (origin spec_small) (extent_hi spec_small)) (take 4 cell_small)"
    by (simp add: cell_small_def proper_rect_in_def pts_Rectangle spec_small_def extent_hi_def)
  have c: "list_all (proper_rect_in (0, 0) (30, 100)) (drop 4 cell_small)"
    by (simp add: cell_small_def proper_rect_in_def pts_Rectangle)
  from spec_small_valid s env_half_ok v rect_kernel_ok n(4) pipeline_small a b c
  show ?thesis by blast
qed

subsection \<open>Determinism\<close>

lemma default_rng_seeded:
  "seeded e1 = seeded e2 \<Longrightarrow> default_rng e1 (Some s) = default_rng e2 (Some s)"
  by (simp add: default_rng_def)

lemma generate_vias_env:
  "seeded e1 = seeded e2 \<Longrightarrow>
   generate_vias_from_metals e1 kern lb vspec m1 m2 = generate_vias_from_metals e2 kern lb vspec m1 m2"
  by (simp add: generate_vias_from_metals_def default_rng_def split: list.splits)

text \<open>
  Claim C1. Two runs of the pipeline differ only in the entropy the operating system
  would hand to an unseeded generator; the library's seeded streams are the same in both
  (\<open>seeded e1 = seeded e2\<close>). With a fixed seed in the MetalGenSpec (the seed of a
  ViaGenSpec is always an integer) both runs give the same result: the same error, the same
  non-termination, or the same list of vias and the same library, polygon by polygon in
  the same order with the same tags.
\<close>

theorem pipeline_deterministic:
  assumes "seed spec = Some s" "seeded e1 = seeded e2"
  shows "pipeline e1 kern spec length_x width pitch ty lyr dt vspec m1 m2 =
         pipeline e2 kern spec length_x width pitch ty lyr dt vspec m1 m2"
proof -
  have "draw_metal_cell_vertical e1 spec = draw_metal_cell_vertical e2 spec"
    using assms by (simp add: draw_metal_cell_vertical_def default_rng_def)
  moreover have "generate_vias_from_metals e1 kern = generate_vias_from_metals e2 kern"
    using assms(2) by (intro ext) (rule generate_vias_env)
  ultimately show ?thesis
    unfolding pipeline_def by (simp only:)
qed

theorem pipeline_deterministic_witness:
  "seed spec_small = Some 0 \<and> seeded env_half = seeded env_other \<and>
   entropy env_half \<noteq> entropy env_other \<and>
   pipeline env_half rect_kernel spec_small 30 10 40 100 110 0 via_small 110 111 =
     Some (Inr (vias_small, [(''metal_cell'', cell_small @ vias_small)])) \<and>
   pipeline env_other rect_kernel spec_small 30 10 40 100 110 0 via_small 110 111 =
     Some (Inr (vias_small, [(''metal_cell'', cell_small @ vias_small)]))"
proof -
  have a: "seed spec_small = Some 0" by (simp add: spec_small_def)
  have b: "seeded env_half = seeded env_other" by (simp add: env_half_def env_other_def)
  have "entropy env_half 0 \<noteq> entropy env_other 0" by (simp add: env_half_def env_other_def)
  then have c: "entropy env_half \<noteq> entropy env_other" by metis
  from pipeline_deterministic [OF a b, of rect_kernel 30 10 40 100 110 0 via_small 110 111]
  have "pipeline env_other rect_kernel spec_small 30 10 40 100 110 0 via_small 110 111 =
     Some (Inr (vias_small, [(''metal_cell'', cell_small @ vias_small)]))"
    by (simp add: pipeline_small)
  with a b c pipeline_small show ?thesis by blast
qed

subsection \<open>The pitch cleaner on the small inputs\<close>

lemma nearest_close: "nearest_idx 8 [5, 45, 85] = 0"
  by (simp add: nearest_idx_def upt_rec)

lemma clean_close:
  "pitch_clean centers_close 5 5 (get_layer_polys cell_small 110 0) (get_layer_polys cell_small 111 0) =
     [(11 / 2, 11 / 2), (49 / 2, 11 / 2), (11 / 2, 48)]"
  unfolding pitch_clean_def column_clean_def tracks_small centers_close_def
  by (simp add: clean_pass_def group_points_def col_of_def row_of_def nearest_small nearest_close)

theorem pitch_enforced_witness:
  "pitch_clean centers_close 5 5 (get_layer_polys cell_small 110 0) (get_layer_polys cell_small 111 0) =
     [(11 / 2, 11 / 2), (49 / 2, 11 / 2), (11 / 2, 48)] \<and>
   successively (\<lambda>a b. (5::real) \<le> b - a)
     (sort (map snd (filter (\<lambda>c. col_of (x_tracks_of (get_layer_polys cell_small 111 0)) c = 0)
                       [(11 / 2, 11 / 2), (49 / 2, 11 / 2), (11 / 2, 48)]))) \<and>
   successively (\<lambda>a b. (5::real) \<le> b - a)
     (sort (map fst (filter (\<lambda>c. row_of (y_tracks_of (get_layer_polys cell_small 110 0)) c = 0)
                       [(11 / 2, 11 / 2), (49 / 2, 11 / 2), (11 / 2, 48)]))) \<and>
   sort (map snd (filter (\<lambda>c. col_of (x_tracks_of (get_layer_polys cell_small 111 0)) c = 0)
                    [(11 / 2, 11 / 2), (49 / 2, 11 / 2), (11 / 2, 48)])) = [11 / 2, 48] \<and>
   sort (map fst (filter (\<lambda>c. row_of (y_tracks_of (get_layer_polys cell_small 110 0)) c = 0)
                    [(11 / 2, 11 / 2), (49 / 2, 11 / 2), (11 / 2, 48)])) = [11 / 2, 49 / 2]"
proof -
  from pitch_enforced [of 5 "get_layer_polys cell_small 111 0" 0 centers_close 5
      "get_layer_polys cell_small 110 0" 0]
  have a: "successively (\<lambda>a b. (5::real) \<le> b - a)
     (sort (map snd (filter (\<lambda>c. col_of (x_tracks_of (get_layer_polys cell_small 111 0)) c = 0)
                       [(11 / 2, 11 / 2), (49 / 2, 11 / 2), (11 / 2, 48)])))"
    and b: "successively (\<lambda>a b. (5::real) \<le> b - a)
     (sort (map fst (filter (\<lambda>c. row_of (y_tracks_of (get_layer_polys cell_small 110 0)) c = 0)
                       [(11 / 2, 11 / 2), (49 / 2, 11 / 2), (11 / 2, 48)])))"
    unfolding clean_close by blast+
  have c: "sort (map snd (filter (\<lambda>c. col_of (x_tracks_of (get_layer_polys cell_small 111 0)) c = 0)
                    [(11 / 2, 11 / 2), (49 / 2, 11 / 2), (11 / 2, 48)])) = [11 / 2, 48]"
    unfolding tracks_small by (simp add: col_of_def nearest_small)
  have d: "sort (map fst (filter (\<lambda>c. row_of (y_tracks_of (get_layer_polys cell_small 110 0)) c = 0)
                    [(11 / 2, 11 / 2), (49 / 2, 11 / 2), (11 / 2, 48)])) = [11 / 2, 49 / 2]"
    unfolding tracks_small by (simp add: row_of_def nearest_small)
  from clean_close a b c d show ?thesis by blast
qed

end
